theory Spec2Isabelle
  imports Main "HOL-Library.AList"
begin

section \<open>Values\<close>

text \<open>
  Both utilities work on what \<^verbatim>\<open>json.load\<close> returns and \<^verbatim>\<open>json.dump\<close> accepts:
  \<^verbatim>\<open>None\<close>, booleans, integers, strings, lists and dictionaries with string keys.
  A dictionary keeps its insertion order, so it is an association list; \<^verbatim>\<open>d[k]\<close> reads the
  first binding of \<open>k\<close> (\<^const>\<open>map_of\<close>) and \<^verbatim>\<open>d[k] = v\<close> overwrites it in place or appends
  a new binding at the end (\<^const>\<open>AList.update\<close>). Numbers with a fraction or an exponent
  (Python floats) are not part of the model.
\<close>

datatype json =
    JNull
  | JBool bool
  | JInt int
  | JStr string
  | JArr "json list"
  | JObj "(string \<times> json) list"

text \<open>
  The exceptions the two scripts can end with. \<open>NoFilesProvided\<close> is
  \<^verbatim>\<open>ValueError("No files provided to merge")\<close>; \<open>SystemExit\<close> is \<^verbatim>\<open>sys.exit(1)\<close>.
\<close>

datatype error =
    NoFilesProvided
  | SystemExit
  | AttributeError
  | TypeError
  | KeyError
  | IndexError
  | FileNotFoundError
  | InvalidSuffix
  | EmptyName

type_synonym path = string

text \<open>Sequencing of steps that may raise: the first exception ends the computation.\<close>

definition bind_err :: "error + 'a \<Rightarrow> ('a \<Rightarrow> error + 'b) \<Rightarrow> error + 'b" where
  "bind_err m f = (case m of Inl e \<Rightarrow> Inl e | Inr x \<Rightarrow> f x)"

section \<open>The list deduplicator: \<^verbatim>\<open>merge_permission_lists\<close>\<close>

text \<open>
  \<^verbatim>\<open>for item in permission_list\<close>: a list yields its elements, a string its characters
  (as one-character strings), a dictionary its keys; anything else is not iterable.
\<close>

fun py_iter :: "json \<Rightarrow> error + json list" where
  "py_iter (JArr xs) = Inr xs"
| "py_iter (JStr s) = Inr (map (\<lambda>c. JStr [c]) s)"
| "py_iter (JObj kvs) = Inr (map (\<lambda>kv. JStr (fst kv)) kvs)"
| "py_iter JNull = Inl TypeError"
| "py_iter (JBool b) = Inl TypeError"
| "py_iter (JInt n) = Inl TypeError"

text \<open>Lists and dictionaries are unhashable: testing them against a set raises.\<close>

fun py_hashable :: "json \<Rightarrow> bool" where
  "py_hashable (JArr xs) = False"
| "py_hashable (JObj kvs) = False"
| "py_hashable JNull = True"
| "py_hashable (JBool b) = True"
| "py_hashable (JInt n) = True"
| "py_hashable (JStr s) = True"

text \<open>Python's \<^verbatim>\<open>==\<close> on hashable values: \<^verbatim>\<open>True == 1\<close> and \<^verbatim>\<open>False == 0\<close>.\<close>

fun py_eq :: "json \<Rightarrow> json \<Rightarrow> bool" where
  "py_eq (JBool b) (JInt n) = (n = (if b then 1 else 0))"
| "py_eq (JInt n) (JBool b) = (n = (if b then 1 else 0))"
| "py_eq a b = (a = b)"

definition py_in :: "json \<Rightarrow> json set \<Rightarrow> bool" where
  "py_in item seen = (\<exists>s \<in> seen. py_eq item s)"

text \<open>
  The inner loop over one list, on the pair of \<^verbatim>\<open>seen\<close> and \<^verbatim>\<open>result\<close>:
  \<^verbatim>\<open>if item not in seen: seen.add(item); result.append(item)\<close>.
\<close>

fun merge_items :: "json set \<times> json list \<Rightarrow> json list \<Rightarrow> error + json set \<times> json list" where
  "merge_items (seen, result) [] = Inr (seen, result)"
| "merge_items (seen, result) (item # items) =
     (if \<not> py_hashable item then Inl TypeError
      else if \<not> py_in item seen then merge_items (insert item seen, result @ [item]) items
      else merge_items (seen, result) items)"

text \<open>The outer loop \<^verbatim>\<open>for permission_list in lists\<close>.\<close>

fun merge_lists :: "json set \<times> json list \<Rightarrow> json list \<Rightarrow> error + json set \<times> json list" where
  "merge_lists st [] = Inr st"
| "merge_lists st (permission_list # rest) =
     (case py_iter permission_list of
        Inl e \<Rightarrow> Inl e
      | Inr items \<Rightarrow>
          (case merge_items st items of
             Inl e \<Rightarrow> Inl e
           | Inr st' \<Rightarrow> merge_lists st' rest))"

definition merge_permission_lists :: "json list \<Rightarrow> error + json list" where
  "merge_permission_lists ls =
     (case merge_lists ({}, []) ls of
        Inl e \<Rightarrow> Inl e
      | Inr (seen, result) \<Rightarrow> Inr result)"

text \<open>A Python list of strings as a value.\<close>

definition str_list :: "string list \<Rightarrow> json" where
  "str_list xs = JArr (map JStr xs)"

section \<open>The settings combiner: \<^verbatim>\<open>merge_settings_files\<close>\<close>

text \<open>
  \<^verbatim>\<open>load_json_file\<close> opens and parses one file. What the file system and the parser
  hold is the function \<open>parsed\<close>: the parsed content of a path, or \<open>None\<close> when the file is
  missing, unreadable or not valid JSON; in each of those cases \<^verbatim>\<open>load_json_file\<close> prints
  a message and calls \<^verbatim>\<open>sys.exit(1)\<close>.
\<close>

definition load_json_file :: "(path \<Rightarrow> json option) \<Rightarrow> path \<Rightarrow> error + json" where
  "load_json_file parsed filepath =
     (case parsed filepath of None \<Rightarrow> Inl SystemExit | Some v \<Rightarrow> Inr v)"

text \<open>\<^verbatim>\<open>[load_json_file(f) for f in files]\<close>, left to right.\<close>

fun load_all :: "(path \<Rightarrow> json option) \<Rightarrow> path list \<Rightarrow> error + json list" where
  "load_all parsed [] = Inr []"
| "load_all parsed (f # files) =
     (case load_json_file parsed f of
        Inl e \<Rightarrow> Inl e
      | Inr v \<Rightarrow> (case load_all parsed files of Inl e \<Rightarrow> Inl e | Inr vs \<Rightarrow> Inr (v # vs)))"

text \<open>
  The operations of Python the function applies to loaded values. On values, a shallow
  copy is the value itself; only dictionaries and lists have \<^verbatim>\<open>.copy()\<close>, only
  dictionaries have \<^verbatim>\<open>.get\<close>.
\<close>

fun py_copy :: "json \<Rightarrow> error + json" where
  "py_copy (JObj kvs) = Inr (JObj kvs)"
| "py_copy (JArr xs) = Inr (JArr xs)"
| "py_copy JNull = Inl AttributeError"
| "py_copy (JBool b) = Inl AttributeError"
| "py_copy (JInt n) = Inl AttributeError"
| "py_copy (JStr s) = Inl AttributeError"

fun py_get :: "json \<Rightarrow> string \<Rightarrow> json \<Rightarrow> error + json" where
  "py_get (JObj kvs) k d = Inr (case map_of kvs k of None \<Rightarrow> d | Some v \<Rightarrow> v)"
| "py_get (JArr xs) k d = Inl AttributeError"
| "py_get JNull k d = Inl AttributeError"
| "py_get (JBool b) k d = Inl AttributeError"
| "py_get (JInt n) k d = Inl AttributeError"
| "py_get (JStr s) k d = Inl AttributeError"

text \<open>\<^verbatim>\<open>k in s\<close> for two strings: \<open>k\<close> occurs in \<open>s\<close> as a contiguous piece.\<close>

fun py_substring :: "string \<Rightarrow> string \<Rightarrow> bool" where
  "py_substring k [] = (k = [])"
| "py_substring k (c # s) = (take (length k) (c # s) = k \<or> py_substring k s)"

text \<open>
  \<^verbatim>\<open>k in x\<close> for a string \<open>k\<close>: a key of a dictionary, an element of a list, a piece of a
  string; the other values are not containers.
\<close>

fun py_contains :: "json \<Rightarrow> string \<Rightarrow> error + bool" where
  "py_contains (JObj kvs) k = Inr (map_of kvs k \<noteq> None)"
| "py_contains (JArr xs) k = Inr (JStr k \<in> set xs)"
| "py_contains (JStr s) k = Inr (py_substring k s)"
| "py_contains JNull k = Inl TypeError"
| "py_contains (JBool b) k = Inl TypeError"
| "py_contains (JInt n) k = Inl TypeError"

text \<open>\<^verbatim>\<open>x[k]\<close> and \<^verbatim>\<open>x[k] = v\<close> for a string \<open>k\<close>: only a dictionary takes a string index.\<close>

fun py_getitem :: "json \<Rightarrow> string \<Rightarrow> error + json" where
  "py_getitem (JObj kvs) k = (case map_of kvs k of None \<Rightarrow> Inl KeyError | Some v \<Rightarrow> Inr v)"
| "py_getitem (JArr xs) k = Inl TypeError"
| "py_getitem (JStr s) k = Inl TypeError"
| "py_getitem JNull k = Inl TypeError"
| "py_getitem (JBool b) k = Inl TypeError"
| "py_getitem (JInt n) k = Inl TypeError"

fun py_setitem :: "json \<Rightarrow> string \<Rightarrow> json \<Rightarrow> error + json" where
  "py_setitem (JObj kvs) k v = Inr (JObj (AList.update k v kvs))"
| "py_setitem (JArr xs) k v = Inl TypeError"
| "py_setitem (JStr s) k v = Inl TypeError"
| "py_setitem JNull k v = Inl TypeError"
| "py_setitem (JBool b) k v = Inl TypeError"
| "py_setitem (JInt n) k v = Inl TypeError"

text \<open>
  \<^verbatim>\<open>if field in permissions: field_lists.append(permissions[field])\<close>
\<close>

definition append_if_defined :: "json \<Rightarrow> string \<Rightarrow> json list \<Rightarrow> error + json list" where
  "append_if_defined permissions field field_lists =
     bind_err (py_contains permissions field) (\<lambda>present.
       if present
       then bind_err (py_getitem permissions field) (\<lambda>v. Inr (field_lists @ [v]))
       else Inr field_lists)"

text \<open>The body of \<^verbatim>\<open>for settings in settings_list\<close>, on the two lists of lists.\<close>

definition collect_step :: "json list \<times> json list \<Rightarrow> json \<Rightarrow> error + json list \<times> json list" where
  "collect_step st settings =
     (case st of (allow_lists, deny_lists) \<Rightarrow>
        bind_err (py_get settings ''permissions'' (JObj [])) (\<lambda>permissions.
        bind_err (append_if_defined permissions ''allow'' allow_lists) (\<lambda>allow_lists'.
        bind_err (append_if_defined permissions ''deny'' deny_lists) (\<lambda>deny_lists'.
        Inr (allow_lists', deny_lists')))))"

fun collect_lists :: "json list \<times> json list \<Rightarrow> json list \<Rightarrow> error + json list \<times> json list" where
  "collect_lists st [] = Inr st"
| "collect_lists st (settings # rest) =
     (case collect_step st settings of
        Inl e \<Rightarrow> Inl e
      | Inr st' \<Rightarrow> collect_lists st' rest)"

text \<open>
  \<^verbatim>\<open>if 'permissions' not in merged: merged['permissions'] = {}\<close>
\<close>

definition ensure_permissions :: "json \<Rightarrow> error + json" where
  "ensure_permissions merged =
     bind_err (py_contains merged ''permissions'') (\<lambda>present.
       if \<not> present then py_setitem merged ''permissions'' (JObj []) else Inr merged)"

text \<open>
  \<^verbatim>\<open>merged['permissions'][field] = v\<close>, with \<open>v\<close> already evaluated: the inner dictionary is
  read, updated in place, and on values the updated dictionary is what \<open>merged\<close> then holds
  under \<^verbatim>\<open>'permissions'\<close>.
\<close>

definition set_permissions_field :: "json \<Rightarrow> string \<Rightarrow> json \<Rightarrow> error + json" where
  "set_permissions_field merged field v =
     bind_err (py_getitem merged ''permissions'') (\<lambda>permissions.
     bind_err (py_setitem permissions field v) (\<lambda>permissions'.
     py_setitem merged ''permissions'' permissions'))"

definition merge_settings_files :: "(path \<Rightarrow> json option) \<Rightarrow> path list \<Rightarrow> error + json" where
  "merge_settings_files parsed files =
     (if files = [] then Inl NoFilesProvided
      else
        bind_err (load_all parsed files) (\<lambda>settings_list.
        bind_err (case settings_list of [] \<Rightarrow> Inl IndexError | first # _ \<Rightarrow> py_copy first)
          (\<lambda>merged.
        bind_err (collect_lists ([], []) settings_list) (\<lambda>(allow_lists, deny_lists).
        bind_err (ensure_permissions merged) (\<lambda>merged.
        bind_err (merge_permission_lists allow_lists) (\<lambda>allow.
        bind_err (set_permissions_field merged ''allow'' (JArr allow)) (\<lambda>merged.
        bind_err (merge_permission_lists deny_lists) (\<lambda>deny.
        set_permissions_field merged ''deny'' (JArr deny)))))))))"

section \<open>The document emitter: \<^verbatim>\<open>create_permissions_json\<close>\<close>

text \<open>
  The patterns are the strings the extractor captured. The loop keeps \<^verbatim>\<open>seen\<close> and
  \<^verbatim>\<open>unique_permissions\<close>:
  \<^verbatim>\<open>if perm not in seen: seen.add(perm); unique_permissions.append(perm)\<close>.
\<close>

fun unique_loop :: "string set \<times> string list \<Rightarrow> string list \<Rightarrow> string set \<times> string list" where
  "unique_loop (seen, unique_permissions) [] = (seen, unique_permissions)"
| "unique_loop (seen, unique_permissions) (perm # patterns) =
     (if perm \<notin> seen
      then unique_loop (insert perm seen, unique_permissions @ [perm]) patterns
      else unique_loop (seen, unique_permissions) patterns)"

definition create_permissions_json :: "string list \<Rightarrow> json" where
  "create_permissions_json patterns =
     (case unique_loop ({}, []) patterns of (seen, unique_permissions) \<Rightarrow>
        JObj [(''permissions'',
               JObj [(''allow'', JArr (map JStr unique_permissions)), (''deny'', JArr [])])])"

section \<open>Reading a permission document\<close>

fun json_get :: "json \<Rightarrow> string \<Rightarrow> json option" where
  "json_get (JObj kvs) k = map_of kvs k"
| "json_get (JArr xs) k = None"
| "json_get (JStr s) k = None"
| "json_get JNull k = None"
| "json_get (JBool b) k = None"
| "json_get (JInt n) k = None"

text \<open>The value of \<^verbatim>\<open>doc["permissions"][field]\<close>, when both keys are there.\<close>

definition permissions_field :: "json \<Rightarrow> string \<Rightarrow> json option" where
  "permissions_field doc field =
     (case json_get doc ''permissions'' of None \<Rightarrow> None | Some p \<Rightarrow> json_get p field)"

section \<open>What the deduplicator is specified to return\<close>

text \<open>
  The distinct elements of a list in the order of their first occurrence, and the position
  of the first occurrence of an element.
\<close>

fun first_seen :: "'a list \<Rightarrow> 'a list" where
  "first_seen [] = []"
| "first_seen (x # xs) = x # filter (\<lambda>y. y \<noteq> x) (first_seen xs)"

definition first_index :: "'a list \<Rightarrow> 'a \<Rightarrow> nat" where
  "first_index xs x = length (takeWhile (\<lambda>y. y \<noteq> x) xs)"

section \<open>The shape of a permission document\<close>

text \<open>
  The input format: a top-level mapping with an optional \<^verbatim>\<open>"permissions"\<close> mapping, which has
  optional \<^verbatim>\<open>"allow"\<close> and \<^verbatim>\<open>"deny"\<close> arrays of strings. Every other field is free.
\<close>

fun is_str :: "json \<Rightarrow> bool" where
  "is_str (JStr s) = True"
| "is_str JNull = False"
| "is_str (JBool b) = False"
| "is_str (JInt n) = False"
| "is_str (JArr xs) = False"
| "is_str (JObj kvs) = False"

fun is_str_array :: "json \<Rightarrow> bool" where
  "is_str_array (JArr xs) = list_all is_str xs"
| "is_str_array JNull = False"
| "is_str_array (JBool b) = False"
| "is_str_array (JInt n) = False"
| "is_str_array (JStr s) = False"
| "is_str_array (JObj kvs) = False"

definition optional_str_array :: "json option \<Rightarrow> bool" where
  "optional_str_array v = (case v of None \<Rightarrow> True | Some a \<Rightarrow> is_str_array a)"

fun is_permissions :: "json \<Rightarrow> bool" where
  "is_permissions (JObj kvs) =
     (optional_str_array (map_of kvs ''allow'') \<and> optional_str_array (map_of kvs ''deny''))"
| "is_permissions JNull = False"
| "is_permissions (JBool b) = False"
| "is_permissions (JInt n) = False"
| "is_permissions (JStr s) = False"
| "is_permissions (JArr xs) = False"

fun permission_document :: "json \<Rightarrow> bool" where
  "permission_document (JObj kvs) =
     (case map_of kvs ''permissions'' of None \<Rightarrow> True | Some p \<Rightarrow> is_permissions p)"
| "permission_document JNull = False"
| "permission_document (JBool b) = False"
| "permission_document (JInt n) = False"
| "permission_document (JStr s) = False"
| "permission_document (JArr xs) = False"

text \<open>
  The \<open>field\<close> lists of the documents that define one, in document order: what the loop of
  \<^verbatim>\<open>merge_settings_files\<close> collects from well-formed documents.
\<close>

definition defined_lists :: "string \<Rightarrow> json list \<Rightarrow> json list" where
  "defined_lists field docs = List.map_filter (\<lambda>d. permissions_field d field) docs"

text \<open>The strings of an array of strings, and the bindings of a dictionary.\<close>

fun the_str :: "json \<Rightarrow> string" where
  "the_str (JStr s) = s"
| "the_str JNull = []"
| "the_str (JBool b) = []"
| "the_str (JInt n) = []"
| "the_str (JArr xs) = []"
| "the_str (JObj kvs) = []"

fun strings_of :: "json \<Rightarrow> string list" where
  "strings_of (JArr xs) = map the_str xs"
| "strings_of JNull = []"
| "strings_of (JBool b) = []"
| "strings_of (JInt n) = []"
| "strings_of (JStr s) = []"
| "strings_of (JObj kvs) = []"

fun obj_fields :: "json \<Rightarrow> (string \<times> json) list" where
  "obj_fields (JObj kvs) = kvs"
| "obj_fields JNull = []"
| "obj_fields (JBool b) = []"
| "obj_fields (JInt n) = []"
| "obj_fields (JStr s) = []"
| "obj_fields (JArr xs) = []"

text \<open>
  The contribution of a document to a list as the specification words it: a document with no
  \<^verbatim>\<open>"permissions"\<close> field contributes an empty list, one whose \<^verbatim>\<open>"permissions"\<close> lacks the
  field contributes nothing, any other contributes its list.
\<close>

definition contribution :: "string \<Rightarrow> json \<Rightarrow> json list" where
  "contribution field doc =
     (case json_get doc ''permissions'' of
        None \<Rightarrow> [JArr []]
      | Some p \<Rightarrow> (case json_get p field of None \<Rightarrow> [] | Some l \<Rightarrow> [l]))"

text \<open>The bindings of the \<^verbatim>\<open>"permissions"\<close> mapping of a document; none when it has no such field.\<close>

definition permissions_of :: "json \<Rightarrow> (string \<times> json) list" where
  "permissions_of doc = (case json_get doc ''permissions'' of None \<Rightarrow> [] | Some p \<Rightarrow> obj_fields p)"

text \<open>
  The invariant of a permission document: it has both lists, and neither holds a value twice.
\<close>

fun distinct_array :: "json \<Rightarrow> bool" where
  "distinct_array (JArr xs) = distinct xs"
| "distinct_array JNull = False"
| "distinct_array (JBool b) = False"
| "distinct_array (JInt n) = False"
| "distinct_array (JStr s) = False"
| "distinct_array (JObj kvs) = False"

definition no_duplicates :: "json \<Rightarrow> bool" where
  "no_duplicates doc =
     ((case permissions_field doc ''allow'' of None \<Rightarrow> False | Some a \<Rightarrow> distinct_array a)
      \<and> (case permissions_field doc ''deny'' of None \<Rightarrow> False | Some d \<Rightarrow> distinct_array d))"

section \<open>Example documents\<close>

definition example_base :: json where
  "example_base = JObj [(''model'', JStr ''opus''),
     (''permissions'', JObj [(''allow'', str_list [''a'', ''b'', ''a'']), (''defaultMode'', JStr ''plan'')])]"

definition example_extra :: json where
  "example_extra = JObj [(''model'', JStr ''other''),
     (''permissions'', JObj [(''deny'', str_list [''d'']), (''allow'', str_list [''b'', ''c''])])]"

definition example_bare :: json where
  "example_bare = JObj [(''env'', JNull)]"

definition example_parsed :: "path \<Rightarrow> json option" where
  "example_parsed = [''base.json'' \<mapsto> example_base, ''extra.json'' \<mapsto> example_extra,
     ''bare.json'' \<mapsto> example_bare]"

section \<open>The pattern extractor: \<^verbatim>\<open>parse_markdown_file\<close>\<close>

text \<open>
  A character of a Python string is a code point; the model has the code points below 256
  (\<^typ>\<open>char\<close>). Among them \<^verbatim>\<open>str.isspace\<close>, and with it \<^verbatim>\<open>str.strip()\<close> and the class
  \<^verbatim>\<open>\s\<close> of a string pattern, holds of tab, line feed, vertical tab, form feed, carriage
  return, the four separators 28 to 31, space, next line (133) and no-break space (160).
\<close>

definition py_isspace :: "char \<Rightarrow> bool" where
  "py_isspace c = (of_char c \<in> {9, 10, 11, 12, 13, 28, 29, 30, 31, 32, 133, 160 :: nat})"

definition py_strip :: "string \<Rightarrow> string" where
  "py_strip s = rev (dropWhile py_isspace (rev (dropWhile py_isspace s)))"

text \<open>
  \<^verbatim>\<open>re.match(r'^[\*\-]\s+`([^`]+)`', s)\<close>, returning group 1 of the match. The match starts
  at the first character. \<^verbatim>\<open>[\*\-]\<close> takes one character, \<^verbatim>\<open>\s+\<close> the longest run of
  spaces (the backtick that must follow is no space, so no shorter run would do), then the
  backtick, \<^verbatim>\<open>[^`]+\<close> the longest run of characters other than a backtick (what follows it
  must be a backtick, so again no shorter run would do), then the closing backtick. What
  comes after is not looked at.
\<close>

definition match_bullet :: "string \<Rightarrow> string option" where
  "match_bullet s =
     (case s of
        [] \<Rightarrow> None
      | marker # s1 \<Rightarrow>
          if marker \<noteq> CHR ''*'' \<and> marker \<noteq> CHR ''-'' then None
          else
            let spaces = takeWhile py_isspace s1; s2 = dropWhile py_isspace s1 in
            if spaces = [] then None
            else
              (case s2 of
                 [] \<Rightarrow> None
               | tick # s3 \<Rightarrow>
                   if tick \<noteq> CHR 0x60 then None
                   else
                     let content = takeWhile (\<lambda>c. c \<noteq> CHR 0x60) s3;
                         s4 = dropWhile (\<lambda>c. c \<noteq> CHR 0x60) s3
                     in
                     if content = [] then None
                     else (case s4 of [] \<Rightarrow> None | closing # rest \<Rightarrow> Some content)))"

text \<open>
  The loop over the lines of the file:
  \<^verbatim>\<open>match = re.match(..., line.strip()); if match: patterns.append(match.group(1))\<close>.
\<close>

fun parse_lines :: "string list \<Rightarrow> string list \<Rightarrow> string list" where
  "parse_lines patterns [] = patterns"
| "parse_lines patterns (line # rest) =
     (case match_bullet (py_strip line) of
        Some group1 \<Rightarrow> parse_lines (patterns @ [group1]) rest
      | None \<Rightarrow> parse_lines patterns rest)"

text \<open>
  The lines a text file yields when iterated: each ends with its line feed, but for a last
  line that has none. The text is the file's content as Python reads it, decoded and with
  line ends translated to line feeds.
\<close>

fun text_lines :: "string \<Rightarrow> string list" where
  "text_lines [] = []"
| "text_lines (c # cs) =
     (if c = CHR 0x0A then [c] # text_lines cs
      else (case text_lines cs of [] \<Rightarrow> [[c]] | l # ls \<Rightarrow> (c # l) # ls))"

definition parse_markdown_file :: "(path \<Rightarrow> string option) \<Rightarrow> path \<Rightarrow> error + string list" where
  "parse_markdown_file fs filepath =
     (case fs filepath of
        None \<Rightarrow> Inl FileNotFoundError
      | Some text \<Rightarrow> Inr (parse_lines [] (text_lines text)))"

text \<open>
  A bullet line as the specification words it: an asterisk or a hyphen, one or more
  whitespace characters, a backtick, one or more characters other than a backtick (the
  capture), a closing backtick, and anything after it.
\<close>

definition bullet_line :: "string \<Rightarrow> string \<Rightarrow> bool" where
  "bullet_line t capture =
     (\<exists>marker spaces rest.
        t = marker # spaces @ [CHR 0x60] @ capture @ [CHR 0x60] @ rest
        \<and> (marker = CHR ''*'' \<or> marker = CHR ''-'')
        \<and> spaces \<noteq> [] \<and> list_all py_isspace spaces
        \<and> capture \<noteq> [] \<and> CHR 0x60 \<notin> set capture)"

text \<open>The captures of the bullet lines among the given lines, in line order.\<close>

definition captures :: "string list \<Rightarrow> string list" where
  "captures lines = List.map_filter (\<lambda>line. match_bullet (py_strip line)) lines"

definition example_markdown :: string where
  "example_markdown =
     ''* `Bash(npm run test:*)`\<newline>not a bullet\<newline>- `Bash(npm run lint)`\<newline>''"

section \<open>Writing the merged settings: the end of \<^verbatim>\<open>main\<close>\<close>

text \<open>
  A \<^verbatim>\<open>pathlib.Path\<close> is modelled by its text, in the normal form \<^verbatim>\<open>str\<close> gives it.
  The name of a path is its last component: what follows the last slash, and nothing for
  the path \<^verbatim>\<open>.\<close>, which has no component.
\<close>

definition path_name :: "path \<Rightarrow> string" where
  "path_name p = (if p = ''.'' then [] else rev (takeWhile (\<lambda>c. c \<noteq> CHR ''/'') (rev p)))"

definition path_parent :: "path \<Rightarrow> string" where
  "path_parent p = (if p = ''.'' then [] else rev (dropWhile (\<lambda>c. c \<noteq> CHR ''/'') (rev p)))"

text \<open>\<^verbatim>\<open>name.rfind('.')\<close>: the index of the last dot, if there is one.\<close>

definition rfind_dot :: "string \<Rightarrow> nat option" where
  "rfind_dot name =
     (if CHR ''.'' \<in> set name
      then Some (length name - 1 - length (takeWhile (\<lambda>c. c \<noteq> CHR ''.'') (rev name)))
      else None)"

text \<open>
  \<^verbatim>\<open>Path.suffix\<close>: \<^verbatim>\<open>i = name.rfind('.')\<close>, and \<^verbatim>\<open>name[i:]\<close> if \<^verbatim>\<open>0 < i < len(name) - 1\<close>,
  else the empty string.
\<close>

definition path_suffix :: "path \<Rightarrow> string" where
  "path_suffix p =
     (let name = path_name p in
      case rfind_dot name of
        None \<Rightarrow> []
      | Some i \<Rightarrow> if 0 < i \<and> Suc i < length name then drop i name else [])"

text \<open>
  \<^verbatim>\<open>Path.with_suffix(suffix)\<close>: a suffix with a separator, one that does not start with a
  dot, and the suffix \<^verbatim>\<open>.\<close> are invalid; a path with an empty name has no suffix to
  replace; otherwise the old suffix is cut off the name and the new one appended.
\<close>

definition with_suffix :: "path \<Rightarrow> string \<Rightarrow> error + path" where
  "with_suffix p suffix =
     (if CHR ''/'' \<in> set suffix then Inl InvalidSuffix
      else if (suffix \<noteq> [] \<and> hd suffix \<noteq> CHR ''.'') \<or> suffix = ''.'' then Inl InvalidSuffix
      else
        let name = path_name p in
        if name = [] then Inl EmptyName
        else
          let old_suffix = path_suffix p;
              name' = (if old_suffix = [] then name @ suffix
                       else take (length name - length old_suffix) name @ suffix)
          in Inr (path_parent p @ name'))"

text \<open>The decimal digits of a natural number, as \<^verbatim>\<open>f'{idx}'\<close> prints them.\<close>

definition digit :: "nat \<Rightarrow> char" where
  "digit n = char_of (48 + n)"

function decimal :: "nat \<Rightarrow> string" where
  "decimal n = (if n < 10 then [digit n] else decimal (n div 10) @ [digit (n mod 10)])"
  by pat_completeness auto

termination
  by (relation "measure id") auto

text \<open>
  The search for a free numbered name:
  \<^verbatim>\<open>while True: candidate = ...; if not candidate.exists(): backup_path = candidate; break; idx += 1\<close>.
  The loop has no bound, so the search may return nothing.
\<close>

partial_function (option) find_candidate ::
  "(path \<Rightarrow> bool) \<Rightarrow> path \<Rightarrow> nat \<Rightarrow> (error + path) option" where
  "find_candidate exists_path output_path idx =
     (case with_suffix output_path (path_suffix output_path @ ''.bak.'' @ decimal idx) of
        Inl e \<Rightarrow> Some (Inl e)
      | Inr candidate \<Rightarrow>
          if \<not> exists_path candidate then Some (Inr candidate)
          else find_candidate exists_path output_path (idx + 1))"

definition choose_backup_path :: "(path \<Rightarrow> bool) \<Rightarrow> path \<Rightarrow> (error + path) option" where
  "choose_backup_path exists_path output_path =
     (case with_suffix output_path (path_suffix output_path @ ''.bak'') of
        Inl e \<Rightarrow> Some (Inl e)
      | Inr backup_path \<Rightarrow>
          if exists_path backup_path then find_candidate exists_path output_path 1
          else Some (Inr backup_path))"

text \<open>
  The names the backup can take, in the order they are tried: \<^verbatim>\<open><path>.bak\<close>, then
  \<^verbatim>\<open><path>.bak.1\<close>, \<^verbatim>\<open><path>.bak.2\<close> and so on.
\<close>

definition backup_name :: "path \<Rightarrow> nat \<Rightarrow> path" where
  "backup_name output_path n =
     (if n = 0 then output_path @ ''.bak'' else output_path @ ''.bak.'' @ decimal n)"

text \<open>
  The options of the combiner that decide how the result is written: \<^verbatim>\<open>-o/--output\<close>
  (absent by default), \<^verbatim>\<open>--indent\<close>, \<^verbatim>\<open>--compact\<close>, \<^verbatim>\<open>--no-backup\<close> and \<^verbatim>\<open>-f/--force\<close>.
\<close>

record args =
  "output" :: "path option"
  indent :: int
  compact :: bool
  no_backup :: bool
  force :: bool

text \<open>
  The last step of \<^verbatim>\<open>main\<close>, on the files and their contents and on the text already
  serialized. With an output path: if the path exists and backups are enabled, the existing
  file is copied to the chosen backup path (\<^verbatim>\<open>shutil.copy2\<close>); then the output file is
  opened for writing and receives the text and a line feed. Without an output path the text
  is printed. The result is the new file system and what went to standard output; messages to
  standard error are left out.
\<close>

definition write_output ::
  "args \<Rightarrow> string \<Rightarrow> (path \<Rightarrow> string option) \<Rightarrow> (error + (path \<Rightarrow> string option) \<times> string) option"
  where
  "write_output args output_text fs =
     (case output args of
        None \<Rightarrow> Some (Inr (fs, output_text @ [CHR 0x0A]))
      | Some output_path \<Rightarrow>
          if fs output_path \<noteq> None \<and> \<not> (no_backup args \<or> force args)
          then
            (case choose_backup_path (\<lambda>p. fs p \<noteq> None) output_path of
               None \<Rightarrow> None
             | Some (Inl e) \<Rightarrow> Some (Inl e)
             | Some (Inr backup_path) \<Rightarrow>
                 Some (Inr ((fs(backup_path := fs output_path))
                              (output_path \<mapsto> output_text @ [CHR 0x0A]), [])))
          else Some (Inr (fs(output_path \<mapsto> output_text @ [CHR 0x0A]), [])))"

definition example_args :: args where
  "example_args = \<lparr>output = Some ''out/settings.json'', indent = 2, compact = False,
     no_backup = False, force = False\<rparr>"

definition example_files :: "path \<Rightarrow> string option" where
  "example_files = [''out/settings.json'' \<mapsto> ''old'', ''out/settings.json.bak'' \<mapsto> ''older'',
     ''out/settings.json.bak.1'' \<mapsto> ''oldest'', ''out/settings.json.bak.3'' \<mapsto> ''other'']"

section \<open>Serialization: \<^verbatim>\<open>json.dumps\<close>\<close>

text \<open>
  A string is written between double quotes with \<^verbatim>\<open>ensure_ascii\<close> on: the printable ASCII
  characters stand for themselves, but for the backslash and the double quote, which get a
  backslash in front; backspace, form feed, line feed, carriage return and tab have their
  two-character escapes; every other character is \<^verbatim>\<open>\u00XX\<close> with two lower-case
  hexadecimal digits.
\<close>

definition hex_digit :: "nat \<Rightarrow> char" where
  "hex_digit n = ''0123456789abcdef'' ! n"

definition escape_char :: "char \<Rightarrow> string" where
  "escape_char c =
     (let n = (of_char c :: nat) in
      if c = CHR 0x5C then [CHR 0x5C, CHR 0x5C]
      else if c = CHR 0x22 then [CHR 0x5C, CHR 0x22]
      else if 32 \<le> n \<and> n \<le> 126 then [c]
      else if n = 8 then [CHR 0x5C, CHR ''b'']
      else if n = 12 then [CHR 0x5C, CHR ''f'']
      else if n = 10 then [CHR 0x5C, CHR ''n'']
      else if n = 13 then [CHR 0x5C, CHR ''r'']
      else if n = 9 then [CHR 0x5C, CHR ''t'']
      else [CHR 0x5C, CHR ''u'', CHR ''0'', CHR ''0'', hex_digit (n div 16), hex_digit (n mod 16)])"

definition encode_string :: "string \<Rightarrow> string" where
  "encode_string s = [CHR 0x22] @ concat (map escape_char s) @ [CHR 0x22]"

definition int_repr :: "int \<Rightarrow> string" where
  "int_repr i = (if i < 0 then ''-'' @ decimal (nat (- i)) else decimal (nat i))"

fun join :: "string \<Rightarrow> string list \<Rightarrow> string" where
  "join sep [] = []"
| "join sep [x] = x"
| "join sep (x # y # ys) = x @ sep @ join sep (y # ys)"

text \<open>A line feed and the indentation of a nesting level.\<close>

definition newline_indent :: "string \<Rightarrow> nat \<Rightarrow> string" where
  "newline_indent unit level = CHR 0x0A # concat (replicate level unit)"

text \<open>
  The encoder, with the indentation unit (absent when \<^verbatim>\<open>indent\<close> is \<^verbatim>\<open>None\<close>), the item
  and the key separators and the current nesting level. An empty list is \<^verbatim>\<open>[]\<close> and an
  empty dictionary \<^verbatim>\<open>{}\<close>. With an indentation unit every item starts on a line of its own,
  one level deeper, and the closing bracket is on its own line at the current level.
\<close>

fun iterencode :: "string option \<Rightarrow> string \<Rightarrow> string \<Rightarrow> nat \<Rightarrow> json \<Rightarrow> string" where
  "iterencode unit item_separator key_separator level JNull = ''null''"
| "iterencode unit item_separator key_separator level (JBool b) = (if b then ''true'' else ''false'')"
| "iterencode unit item_separator key_separator level (JInt i) = int_repr i"
| "iterencode unit item_separator key_separator level (JStr s) = encode_string s"
| "iterencode unit item_separator key_separator level (JArr xs) =
     (if xs = [] then ''[]''
      else
        (case unit of
           None \<Rightarrow>
             ''['' @ join item_separator
                      (map (iterencode unit item_separator key_separator level) xs) @ '']''
         | Some u \<Rightarrow>
             ''['' @ newline_indent u (level + 1)
             @ join (item_separator @ newline_indent u (level + 1))
                 (map (iterencode unit item_separator key_separator (level + 1)) xs)
             @ newline_indent u level @ '']''))"
| "iterencode unit item_separator key_separator level (JObj kvs) =
     (if kvs = [] then ''{}''
      else
        (case unit of
           None \<Rightarrow>
             ''{'' @ join item_separator
                      (map (\<lambda>kv. encode_string (fst kv) @ key_separator
                              @ iterencode unit item_separator key_separator level (snd kv)) kvs)
             @ ''}''
         | Some u \<Rightarrow>
             ''{'' @ newline_indent u (level + 1)
             @ join (item_separator @ newline_indent u (level + 1))
                 (map (\<lambda>kv. encode_string (fst kv) @ key_separator
                         @ iterencode unit item_separator key_separator (level + 1) (snd kv)) kvs)
             @ newline_indent u level @ ''}''))"

text \<open>
  \<^verbatim>\<open>json.dumps(v, separators=(',', ':'))\<close> and \<^verbatim>\<open>json.dumps(v, indent=n)\<close> for an integer
  \<open>n\<close>, where the unit is \<open>n\<close> spaces (none when \<open>n\<close> is negative) and the separators are
  \<^verbatim>\<open>','\<close> and \<^verbatim>\<open>': '\<close>.
\<close>

definition json_dumps_compact :: "json \<Rightarrow> string" where
  "json_dumps_compact v = iterencode None '','' '':'' 0 v"

definition json_dumps_indent :: "int \<Rightarrow> json \<Rightarrow> string" where
  "json_dumps_indent n v = iterencode (Some (replicate (nat n) CHR '' '')) '','' '': '' 0 v"

text \<open>The serialization \<^verbatim>\<open>main\<close> chooses: compact, or indented by \<^verbatim>\<open>--indent\<close>.\<close>

definition render_output :: "args \<Rightarrow> json \<Rightarrow> string" where
  "render_output args merged =
     (if compact args then json_dumps_compact merged
      else json_dumps_indent (indent args) merged)"

section \<open>The batch extractor: \<^verbatim>\<open>process_file\<close>\<close>

text \<open>
  \<^verbatim>\<open>os.path.splitext(p)[0]\<close>: the path without its extension. The extension starts at the
  last dot of the last component, provided some character before that dot in the component
  is not a dot.
\<close>

definition splitext_root :: "path \<Rightarrow> string" where
  "splitext_root p =
     (let base = rev (takeWhile (\<lambda>c. c \<noteq> CHR ''/'') (rev p)) in
      case rfind_dot base of
        None \<Rightarrow> p
      | Some i \<Rightarrow>
          if \<exists>c \<in> set (take i base). c \<noteq> CHR ''.''
          then take (length p - (length base - i)) p
          else p)"

text \<open>
  \<^verbatim>\<open>process_file\<close> parses the markdown file, builds the document and writes it with
  \<^verbatim>\<open>json.dump(permissions_data, f, indent=2)\<close> to the path with \<^verbatim>\<open>.json\<close> in place of the
  extension; it returns that path. Nothing else is written to the file.
\<close>

definition process_file ::
  "(path \<Rightarrow> string option) \<Rightarrow> path \<Rightarrow> error + (path \<Rightarrow> string option) \<times> path" where
  "process_file fs markdown_filepath =
     bind_err (parse_markdown_file fs markdown_filepath) (\<lambda>patterns.
       let permissions_data = create_permissions_json patterns;
           json_filepath = splitext_root markdown_filepath @ ''.json''
       in Inr (fs(json_filepath \<mapsto> json_dumps_indent 2 permissions_data), json_filepath))"

text \<open>What a run of \<^verbatim>\<open>process_file\<close> left in the file it reports.\<close>

definition written_file :: "error + (path \<Rightarrow> string option) \<times> path \<Rightarrow> string option" where
  "written_file r = (case r of Inl e \<Rightarrow> None | Inr (fs', json_filepath) \<Rightarrow> fs' json_filepath)"

section \<open>The settings combiner on objects\<close>

text \<open>
  Lists and dictionaries are objects: a variable or a slot holds a reference to one, and two
  references may name the same object. To see what \<^verbatim>\<open>merge_settings_files\<close> does to the
  documents it has loaded, the function is given again on a heap: a list of objects, where
  the address of an object is its position and a new object goes to the end. The scalar
  values are held in place.
\<close>

type_synonym addr = nat

datatype pyval =
    VNone
  | VBool bool
  | VInt int
  | VStr string
  | VRef addr

datatype pyobj =
    OList "pyval list"
  | ODict "(string \<times> pyval) list"

type_synonym heap = "pyobj list"

text \<open>The object a value refers to. Addresses beyond the heap do not occur in a run.\<close>

fun deref :: "heap \<Rightarrow> pyval \<Rightarrow> pyobj option" where
  "deref h (VRef a) = (if a < length h then Some (h ! a) else None)"
| "deref h VNone = None"
| "deref h (VBool b) = None"
| "deref h (VInt i) = None"
| "deref h (VStr s) = None"

text \<open>
  What \<^verbatim>\<open>json.load\<close> builds for a parsed value: a new object for every list and every
  dictionary, the inner ones first.
\<close>

fun alloc_json :: "json \<Rightarrow> heap \<Rightarrow> pyval \<times> heap"
  and alloc_items :: "json list \<Rightarrow> heap \<Rightarrow> pyval list \<times> heap"
  and alloc_members :: "(string \<times> json) list \<Rightarrow> heap \<Rightarrow> (string \<times> pyval) list \<times> heap"
where
  "alloc_json JNull h = (VNone, h)"
| "alloc_json (JBool b) h = (VBool b, h)"
| "alloc_json (JInt i) h = (VInt i, h)"
| "alloc_json (JStr s) h = (VStr s, h)"
| "alloc_json (JArr xs) h =
     (case alloc_items xs h of (vs, h') \<Rightarrow> (VRef (length h'), h' @ [OList vs]))"
| "alloc_json (JObj kvs) h =
     (case alloc_members kvs h of (ms, h') \<Rightarrow> (VRef (length h'), h' @ [ODict ms]))"
| "alloc_items [] h = ([], h)"
| "alloc_items (x # xs) h =
     (case alloc_json x h of (v, h1) \<Rightarrow>
        (case alloc_items xs h1 of (vs, h2) \<Rightarrow> (v # vs, h2)))"
| "alloc_members [] h = ([], h)"
| "alloc_members (kv # kvs) h =
     (case alloc_json (snd kv) h of (v, h1) \<Rightarrow>
        (case alloc_members kvs h1 of (ms, h2) \<Rightarrow> ((fst kv, v) # ms, h2)))"

text \<open>The value a reference stands for, read through the heap to a given depth.\<close>

fun read_val :: "nat \<Rightarrow> heap \<Rightarrow> pyval \<Rightarrow> json option" where
  "read_val depth h VNone = Some JNull"
| "read_val depth h (VBool b) = Some (JBool b)"
| "read_val depth h (VInt i) = Some (JInt i)"
| "read_val depth h (VStr s) = Some (JStr s)"
| "read_val 0 h (VRef a) = None"
| "read_val (Suc depth) h (VRef a) =
     (if a < length h
      then (case h ! a of
              OList vs \<Rightarrow> map_option JArr (those (map (read_val depth h) vs))
            | ODict ms \<Rightarrow>
                map_option JObj
                  (those (map (\<lambda>kv. map_option (Pair (fst kv)) (read_val depth h (snd kv))) ms)))
      else None)"

text \<open>
  The operations of Python on references. \<^verbatim>\<open>.copy()\<close> makes a new object with the same
  slots: the values in the slots, references included, are shared with the original.
\<close>

definition copy_obj :: "heap \<Rightarrow> pyval \<Rightarrow> error + pyval \<times> heap" where
  "copy_obj h v =
     (case deref h v of
        None \<Rightarrow> Inl AttributeError
      | Some obj \<Rightarrow> Inr (VRef (length h), h @ [obj]))"

definition get_obj :: "heap \<Rightarrow> pyval \<Rightarrow> string \<Rightarrow> pyval \<Rightarrow> error + pyval" where
  "get_obj h v k d =
     (case deref h v of
        Some (ODict ms) \<Rightarrow> Inr (case map_of ms k of None \<Rightarrow> d | Some x \<Rightarrow> x)
      | Some (OList vs) \<Rightarrow> Inl AttributeError
      | None \<Rightarrow> Inl AttributeError)"

fun contains_obj :: "heap \<Rightarrow> pyval \<Rightarrow> string \<Rightarrow> error + bool" where
  "contains_obj h (VStr s) k = Inr (py_substring k s)"
| "contains_obj h (VRef a) k =
     (case deref h (VRef a) of
        Some (ODict ms) \<Rightarrow> Inr (map_of ms k \<noteq> None)
      | Some (OList vs) \<Rightarrow> Inr (VStr k \<in> set vs)
      | None \<Rightarrow> Inl TypeError)"
| "contains_obj h VNone k = Inl TypeError"
| "contains_obj h (VBool b) k = Inl TypeError"
| "contains_obj h (VInt i) k = Inl TypeError"

definition getitem_obj :: "heap \<Rightarrow> pyval \<Rightarrow> string \<Rightarrow> error + pyval" where
  "getitem_obj h v k =
     (case deref h v of
        Some (ODict ms) \<Rightarrow> (case map_of ms k of None \<Rightarrow> Inl KeyError | Some x \<Rightarrow> Inr x)
      | Some (OList vs) \<Rightarrow> Inl TypeError
      | None \<Rightarrow> Inl TypeError)"

text \<open>\<^verbatim>\<open>x[k] = v\<close> changes the dictionary \<open>x\<close> refers to, in place.\<close>

fun setitem_obj :: "heap \<Rightarrow> pyval \<Rightarrow> string \<Rightarrow> pyval \<Rightarrow> error + heap" where
  "setitem_obj h (VRef a) k x =
     (case deref h (VRef a) of
        Some (ODict ms) \<Rightarrow> Inr (h[a := ODict (AList.update k x ms)])
      | Some (OList vs) \<Rightarrow> Inl TypeError
      | None \<Rightarrow> Inl TypeError)"
| "setitem_obj h VNone k x = Inl TypeError"
| "setitem_obj h (VBool b) k x = Inl TypeError"
| "setitem_obj h (VInt i) k x = Inl TypeError"
| "setitem_obj h (VStr s) k x = Inl TypeError"

fun iter_obj :: "heap \<Rightarrow> pyval \<Rightarrow> error + pyval list" where
  "iter_obj h (VStr s) = Inr (map (\<lambda>c. VStr [c]) s)"
| "iter_obj h (VRef a) =
     (case deref h (VRef a) of
        Some (OList vs) \<Rightarrow> Inr vs
      | Some (ODict ms) \<Rightarrow> Inr (map (\<lambda>kv. VStr (fst kv)) ms)
      | None \<Rightarrow> Inl TypeError)"
| "iter_obj h VNone = Inl TypeError"
| "iter_obj h (VBool b) = Inl TypeError"
| "iter_obj h (VInt i) = Inl TypeError"

fun hashable_obj :: "pyval \<Rightarrow> bool" where
  "hashable_obj (VRef a) = False"
| "hashable_obj VNone = True"
| "hashable_obj (VBool b) = True"
| "hashable_obj (VInt i) = True"
| "hashable_obj (VStr s) = True"

fun eq_obj :: "pyval \<Rightarrow> pyval \<Rightarrow> bool" where
  "eq_obj (VBool b) (VInt n) = (n = (if b then 1 else 0))"
| "eq_obj (VInt n) (VBool b) = (n = (if b then 1 else 0))"
| "eq_obj a b = (a = b)"

text \<open>\<^verbatim>\<open>merge_permission_lists\<close> on references; its result is a new list object.\<close>

fun merge_items_obj ::
  "pyval set \<times> pyval list \<Rightarrow> pyval list \<Rightarrow> error + pyval set \<times> pyval list" where
  "merge_items_obj (seen, result) [] = Inr (seen, result)"
| "merge_items_obj (seen, result) (item # items) =
     (if \<not> hashable_obj item then Inl TypeError
      else if \<not> (\<exists>s \<in> seen. eq_obj item s)
      then merge_items_obj (insert item seen, result @ [item]) items
      else merge_items_obj (seen, result) items)"

fun merge_lists_obj ::
  "heap \<Rightarrow> pyval set \<times> pyval list \<Rightarrow> pyval list \<Rightarrow> error + pyval set \<times> pyval list" where
  "merge_lists_obj h st [] = Inr st"
| "merge_lists_obj h st (permission_list # rest) =
     (case iter_obj h permission_list of
        Inl e \<Rightarrow> Inl e
      | Inr items \<Rightarrow>
          (case merge_items_obj st items of
             Inl e \<Rightarrow> Inl e
           | Inr st' \<Rightarrow> merge_lists_obj h st' rest))"

definition merge_permission_lists_obj :: "heap \<Rightarrow> pyval list \<Rightarrow> error + pyval \<times> heap" where
  "merge_permission_lists_obj h ls =
     (case merge_lists_obj h ({}, []) ls of
        Inl e \<Rightarrow> Inl e
      | Inr (seen, result) \<Rightarrow> Inr (VRef (length h), h @ [OList result]))"

text \<open>
  The loop over the loaded documents. The default \<^verbatim>\<open>{}\<close> of \<^verbatim>\<open>.get\<close> is a new empty
  dictionary at every turn.
\<close>

definition append_if_defined_obj ::
  "heap \<Rightarrow> pyval \<Rightarrow> string \<Rightarrow> pyval list \<Rightarrow> error + pyval list" where
  "append_if_defined_obj h permissions field field_lists =
     bind_err (contains_obj h permissions field) (\<lambda>present.
       if present
       then bind_err (getitem_obj h permissions field) (\<lambda>v. Inr (field_lists @ [v]))
       else Inr field_lists)"

definition collect_step_obj ::
  "heap \<times> pyval list \<times> pyval list \<Rightarrow> pyval \<Rightarrow> error + heap \<times> pyval list \<times> pyval list" where
  "collect_step_obj st settings =
     (case st of (h, allow_lists, deny_lists) \<Rightarrow>
        let h' = h @ [ODict []]; default = VRef (length h) in
        bind_err (get_obj h' settings ''permissions'' default) (\<lambda>permissions.
        bind_err (append_if_defined_obj h' permissions ''allow'' allow_lists) (\<lambda>allow_lists'.
        bind_err (append_if_defined_obj h' permissions ''deny'' deny_lists) (\<lambda>deny_lists'.
        Inr (h', allow_lists', deny_lists')))))"

fun collect_lists_obj ::
  "heap \<times> pyval list \<times> pyval list \<Rightarrow> pyval list \<Rightarrow> error + heap \<times> pyval list \<times> pyval list" where
  "collect_lists_obj st [] = Inr st"
| "collect_lists_obj st (settings # rest) =
     (case collect_step_obj st settings of
        Inl e \<Rightarrow> Inl e
      | Inr st' \<Rightarrow> collect_lists_obj st' rest)"

definition ensure_permissions_obj :: "heap \<Rightarrow> pyval \<Rightarrow> error + heap" where
  "ensure_permissions_obj h merged =
     bind_err (contains_obj h merged ''permissions'') (\<lambda>present.
       if \<not> present
       then setitem_obj (h @ [ODict []]) merged ''permissions'' (VRef (length h))
       else Inr h)"

text \<open>
  \<^verbatim>\<open>merged['permissions'][field] = v\<close>: the dictionary that \<open>merged\<close> holds under
  \<^verbatim>\<open>'permissions'\<close> is changed in place, whoever else refers to it.
\<close>

definition set_permissions_field_obj :: "heap \<Rightarrow> pyval \<Rightarrow> string \<Rightarrow> pyval \<Rightarrow> error + heap" where
  "set_permissions_field_obj h merged field v =
     bind_err (getitem_obj h merged ''permissions'') (\<lambda>permissions.
       setitem_obj h permissions field v)"

text \<open>
  The function after the files are loaded: from the heap with the loaded documents and the
  references to them, to the reference to the merged document and the heap it leaves.
\<close>

definition merge_loaded :: "heap \<Rightarrow> pyval list \<Rightarrow> error + pyval \<times> heap" where
  "merge_loaded h settings_list =
     bind_err (case settings_list of [] \<Rightarrow> Inl IndexError | first # _ \<Rightarrow> copy_obj h first)
       (\<lambda>(merged, h1).
     bind_err (collect_lists_obj (h1, [], []) settings_list) (\<lambda>(h2, allow_lists, deny_lists).
     bind_err (ensure_permissions_obj h2 merged) (\<lambda>h3.
     bind_err (merge_permission_lists_obj h3 allow_lists) (\<lambda>(allow, h4).
     bind_err (set_permissions_field_obj h4 merged ''allow'' allow) (\<lambda>h5.
     bind_err (merge_permission_lists_obj h5 deny_lists) (\<lambda>(deny, h6).
     bind_err (set_permissions_field_obj h6 merged ''deny'' deny) (\<lambda>h7.
     Inr (merged, h7))))))))"

text \<open>Loading the files one after the other, each into new objects.\<close>

fun load_all_obj ::
  "(path \<Rightarrow> json option) \<Rightarrow> path list \<Rightarrow> heap \<Rightarrow> error + pyval list \<times> heap" where
  "load_all_obj parsed [] h = Inr ([], h)"
| "load_all_obj parsed (f # files) h =
     (case load_json_file parsed f of
        Inl e \<Rightarrow> Inl e
      | Inr j \<Rightarrow>
          (case alloc_json j h of (v, h1) \<Rightarrow>
             (case load_all_obj parsed files h1 of
                Inl e \<Rightarrow> Inl e
              | Inr (vs, h2) \<Rightarrow> Inr (v # vs, h2))))"

text \<open>
  A run of \<^verbatim>\<open>merge_settings_files\<close> on an empty heap, keeping what is needed to look at
  the loaded documents afterwards: the references to them, the heap before the merge and
  after it, and the reference to the result.
\<close>

record merge_run =
  loaded_refs :: "pyval list"
  heap_before :: heap
  merged_ref :: pyval
  heap_after :: heap

definition merge_settings_files_obj ::
  "(path \<Rightarrow> json option) \<Rightarrow> path list \<Rightarrow> error + merge_run" where
  "merge_settings_files_obj parsed files =
     (if files = [] then Inl NoFilesProvided
      else
        bind_err (load_all_obj parsed files []) (\<lambda>(refs, h).
        bind_err (merge_loaded h refs) (\<lambda>(merged, h').
        Inr \<lparr>loaded_refs = refs, heap_before = h, merged_ref = merged, heap_after = h'\<rparr>)))"

text \<open>The documents of a run as values, read before the merge and after it, and the result.\<close>

definition read_heap :: "heap \<Rightarrow> pyval \<Rightarrow> json option" where
  "read_heap h v = read_val (Suc (length h)) h v"

definition documents_before :: "error + merge_run \<Rightarrow> json option list" where
  "documents_before r =
     (case r of Inl e \<Rightarrow> [] | Inr run \<Rightarrow> map (read_heap (heap_before run)) (loaded_refs run))"

definition documents_after :: "error + merge_run \<Rightarrow> json option list" where
  "documents_after r =
     (case r of Inl e \<Rightarrow> [] | Inr run \<Rightarrow> map (read_heap (heap_after run)) (loaded_refs run))"

definition merged_document :: "error + merge_run \<Rightarrow> error + json option" where
  "merged_document r =
     (case r of Inl e \<Rightarrow> Inl e | Inr run \<Rightarrow> Inr (read_heap (heap_after run) (merged_ref run)))"

text \<open>
  The address of the \<^verbatim>\<open>"permissions"\<close> mapping of the first loaded document, when it has one.
\<close>

definition first_permissions :: "heap \<Rightarrow> pyval list \<Rightarrow> addr option" where
  "first_permissions h refs =
     (case refs of
        [] \<Rightarrow> None
      | first # _ \<Rightarrow>
          (case deref h first of
             Some (ODict ms) \<Rightarrow>
               (case map_of ms ''permissions'' of Some (VRef p) \<Rightarrow> Some p | _ \<Rightarrow> None)
           | _ \<Rightarrow> None))"

text \<open>
  Files whose content is not a permission document: \<^verbatim>\<open>"permissions"\<close> a string or a list,
  a top-level list or \<^verbatim>\<open>null\<close>, lists of mixed scalars, a list in a list.
\<close>

definition example_odd :: "path \<Rightarrow> json option" where
  "example_odd =
     [''str.json'' \<mapsto> JObj [(''permissions'', JStr ''xallowx'')],
      ''quiet.json'' \<mapsto> JObj [(''permissions'', JStr ''none'')],
      ''list.json'' \<mapsto> JArr [],
      ''null.json'' \<mapsto> JNull,
      ''plist.json'' \<mapsto> JObj [(''permissions'', JArr [JStr ''deny''])],
      ''nested.json'' \<mapsto> JObj [(''permissions'', JObj [(''allow'', JArr [JArr []])])],
      ''mixed.json'' \<mapsto> JObj [(''permissions'',
         JObj [(''allow'', JArr [JBool True, JInt 1, JStr ''a'', JNull, JInt 0, JBool False]),
               (''deny'', JStr ''aba'')])],
      ''keys.json'' \<mapsto> JObj [(''permissions'', JObj [(''allow'', JObj [(''k'', JNull)])])],
      ''base.json'' \<mapsto> example_base,
      ''bare.json'' \<mapsto> example_bare]"

definition example_runs :: "path list list" where
  "example_runs =
     [[''base.json'', ''mixed.json''], [''mixed.json'', ''base.json''], [''bare.json'', ''quiet.json''],
      [''base.json'', ''str.json''], [''list.json''], [''base.json'', ''null.json''],
      [''base.json'', ''plist.json''], [''quiet.json''], [''nested.json''], [''keys.json'', ''bare.json''],
      [''base.json'', ''missing.json''], []]"

section \<open>Properties of the deduplicator\<close>

lemma set_first_seen [simp]: "set (first_seen xs) = set xs"
  by (induction xs) auto

lemma distinct_first_seen [simp]: "distinct (first_seen xs)"
  by (induction xs) auto

lemma first_seen_filter: "first_seen (filter P xs) = filter P (first_seen xs)"
proof (induction xs)
  case Nil
  show ?case by simp
next
  case (Cons x xs)
  have "\<not> P x \<Longrightarrow> filter (\<lambda>y. y \<noteq> x \<and> P y) (first_seen xs) = filter P (first_seen xs)"
    by (rule filter_cong) auto
  with Cons show ?case by (auto simp: conj_commute)
qed

lemma first_seen_append:
  "first_seen (xs @ ys) = first_seen xs @ first_seen (filter (\<lambda>y. y \<notin> set xs) ys)"
  by (induction xs arbitrary: ys) (auto simp: first_seen_filter conj_commute)

lemma first_seen_distinct: "distinct xs \<Longrightarrow> first_seen xs = xs"
proof (induction xs)
  case Nil
  show ?case by simp
next
  case (Cons x xs)
  then have "filter (\<lambda>y. y \<noteq> x) xs = xs"
    by (auto intro: filter_True)
  with Cons show ?case by simp
qed

lemma py_in_strings [simp]: "py_in (JStr x) (JStr ` S) \<longleftrightarrow> x \<in> S"
  by (auto simp: py_in_def)

lemma merge_items_strings:
  "merge_items (JStr ` S, map JStr r) (map JStr xs)
   = Inr (JStr ` (S \<union> set xs), map JStr (r @ first_seen (filter (\<lambda>x. x \<notin> S) xs)))"
proof (induction xs arbitrary: S r)
  case Nil
  show ?case by simp
next
  case (Cons x xs)
  show ?case
  proof (cases "x \<in> S")
    case True
    then have "S \<union> set (x # xs) = S \<union> set xs" by auto
    with True Cons [of S r] show ?thesis by simp
  next
    case False
    have "merge_items (JStr ` S, map JStr r) (map JStr (x # xs))
          = merge_items (JStr ` insert x S, map JStr (r @ [x])) (map JStr xs)"
      using False by simp
    also have "\<dots> = Inr (JStr ` (insert x S \<union> set xs),
        map JStr ((r @ [x]) @ first_seen (filter (\<lambda>y. y \<notin> insert x S) xs)))"
      by (rule Cons)
    also have "first_seen (filter (\<lambda>y. y \<notin> insert x S) xs)
               = filter (\<lambda>y. y \<noteq> x) (first_seen (filter (\<lambda>y. y \<notin> S) xs))"
      by (simp add: first_seen_filter conj_commute)
    finally show ?thesis using False by simp
  qed
qed

lemma py_iter_str_list [simp]: "py_iter (str_list l) = Inr (map JStr l)"
  by (simp add: str_list_def)

lemma merge_lists_strings:
  "merge_lists (JStr ` S, map JStr r) (map str_list ls)
   = Inr (JStr ` (S \<union> set (concat ls)),
          map JStr (r @ first_seen (filter (\<lambda>x. x \<notin> S) (concat ls))))"
proof (induction ls arbitrary: S r)
  case Nil
  show ?case by simp
next
  case (Cons l ls)
  let ?A = "first_seen (filter (\<lambda>x. x \<notin> S) l)"
  let ?B = "first_seen (filter (\<lambda>x. x \<notin> S \<union> set l) (concat ls))"
  have eq: "?A @ ?B = first_seen (filter (\<lambda>x. x \<notin> S) (concat (l # ls)))"
    by (auto simp: first_seen_append first_seen_filter intro: filter_cong)
  have "merge_lists (JStr ` S, map JStr r) (map str_list (l # ls))
        = merge_lists (JStr ` (S \<union> set l), map JStr (r @ ?A)) (map str_list ls)"
    by (simp add: merge_items_strings)
  also have "\<dots> = Inr (JStr ` ((S \<union> set l) \<union> set (concat ls)), map JStr ((r @ ?A) @ ?B))"
    by (rule Cons)
  also have "(S \<union> set l) \<union> set (concat ls) = S \<union> set (concat (l # ls))"
    by auto
  also have "(r @ ?A) @ ?B = r @ first_seen (filter (\<lambda>x. x \<notin> S) (concat (l # ls)))"
    using eq by simp
  finally show ?case .
qed

lemma merge_permission_lists_strings:
  "merge_permission_lists (map str_list ls) = Inr (map JStr (first_seen (concat ls)))"
  using merge_lists_strings [of "{}" "[]" ls] by (simp add: merge_permission_lists_def)

lemma first_index_Cons:
  "first_index (x # xs) y = (if y = x then 0 else Suc (first_index xs y))"
  by (auto simp: first_index_def)

lemma first_seen_ordered:
  "sorted_wrt (\<lambda>x y. first_index xs x < first_index xs y) (first_seen xs)"
proof (induction xs)
  case Nil
  show ?case by simp
next
  case (Cons a xs)
  have "sorted_wrt (\<lambda>x y. first_index xs x < first_index xs y)
          (filter (\<lambda>y. y \<noteq> a) (first_seen xs))"
    using Cons by (rule sorted_wrt_filter)
  then have "sorted_wrt (\<lambda>x y. first_index (a # xs) x < first_index (a # xs) y)
          (filter (\<lambda>y. y \<noteq> a) (first_seen xs))"
    by (rule sorted_wrt_mono_rel [rotated]) (auto simp: first_index_Cons)
  then show ?case
    by (auto simp: first_index_Cons)
qed

text \<open>
  C1. On string lists \<^verbatim>\<open>merge_permission_lists\<close> returns every string that occurs in
  some input list, each exactly once, in the order of first occurrence across the inputs
  taken in argument order; on \<^verbatim>\<open>[["a","b","a"],["b","c"]]\<close> it returns
  \<^verbatim>\<open>["a","b","c"]\<close>. The inner lists may be empty and may hold duplicates.
\<close>

theorem merge_permission_lists_first_occurrence:
  "merge_permission_lists (map str_list ls) = Inr (map JStr (first_seen (concat ls)))
   \<and> distinct (first_seen (concat ls))
   \<and> set (first_seen (concat ls)) = \<Union> (set ` set ls)
   \<and> sorted_wrt (\<lambda>x y. first_index (concat ls) x < first_index (concat ls) y)
        (first_seen (concat ls))
   \<and> merge_permission_lists [str_list [''a'', ''b'', ''a''], str_list [''b'', ''c'']]
       = Inr [JStr ''a'', JStr ''b'', JStr ''c'']"
proof -
  have "merge_permission_lists (map str_list [[''a'', ''b'', ''a''], [''b'', ''c'']])
        = Inr (map JStr (first_seen (concat [[''a'', ''b'', ''a''], [''b'', ''c'']])))"
    by (rule merge_permission_lists_strings)
  then have "merge_permission_lists [str_list [''a'', ''b'', ''a''], str_list [''b'', ''c'']]
        = Inr [JStr ''a'', JStr ''b'', JStr ''c'']"
    by simp
  then show ?thesis
    by (simp add: merge_permission_lists_strings first_seen_ordered)
qed

theorem merge_permission_lists_first_occurrence_witness:
  "merge_permission_lists [str_list [], str_list [''x'', ''y'', ''x''], str_list [''y'', ''w'']]
   = Inr [JStr ''x'', JStr ''y'', JStr ''w'']"
  using merge_permission_lists_first_occurrence
    [of "[[], [''x'', ''y'', ''x''], [''y'', ''w'']]"]
  by simp

section \<open>Properties of the settings combiner\<close>

lemma bind_err_simps [simp]:
  "bind_err (Inl e) f = Inl e" "bind_err (Inr x) f = f x"
  by (simp_all add: bind_err_def)

lemma is_str_the_str: "is_str v \<Longrightarrow> JStr (the_str v) = v"
  by (cases v) auto

lemma is_str_array_strings_of: "is_str_array v \<Longrightarrow> str_list (strings_of v) = v"
  by (cases v) (auto simp: str_list_def list_all_iff is_str_the_str intro: map_idI)

lemma load_all_Some: "map parsed files = map Some docs \<Longrightarrow> load_all parsed files = Inr docs"
  by (induction files arbitrary: docs) (auto simp: load_json_file_def)

lemma append_if_defined_permissions:
  "append_if_defined (JObj kvs) field ls
   = Inr (ls @ (case map_of kvs field of None \<Rightarrow> [] | Some v \<Rightarrow> [v]))"
  by (auto simp: append_if_defined_def split: option.splits)

lemma is_permissions_obj: "is_permissions p \<Longrightarrow> \<exists>pkvs. p = JObj pkvs"
  by (cases p) auto

lemma collect_step_document:
  assumes "permission_document d"
  shows "collect_step (al, dl) d
         = Inr (al @ defined_lists ''allow'' [d], dl @ defined_lists ''deny'' [d])"
proof -
  from assms obtain kvs where d: "d = JObj kvs"
    by (cases d) auto
  show ?thesis
  proof (cases "map_of kvs ''permissions''")
    case None
    then show ?thesis
      by (simp add: d collect_step_def defined_lists_def
          permissions_field_def append_if_defined_permissions)
  next
    case (Some p)
    with assms d obtain pkvs where p: "p = JObj pkvs"
      using is_permissions_obj by auto
    show ?thesis
      by (simp add: d Some p collect_step_def defined_lists_def
          permissions_field_def append_if_defined_permissions split: option.splits)
  qed
qed

lemma defined_lists_Cons:
  "defined_lists field (d # ds) = defined_lists field [d] @ defined_lists field ds"
  by (simp add: defined_lists_def split: option.splits)

lemma collect_lists_documents:
  "list_all permission_document docs \<Longrightarrow>
   collect_lists (al, dl) docs = Inr (al @ defined_lists ''allow'' docs, dl @ defined_lists ''deny'' docs)"
proof (induction docs arbitrary: al dl)
  case Nil
  show ?case by (simp add: defined_lists_def)
next
  case (Cons d ds)
  then show ?case
    by (simp add: collect_step_document defined_lists_Cons [of _ d ds])
qed

lemma defined_lists_str_arrays:
  "list_all permission_document docs \<Longrightarrow> list_all is_str_array (defined_lists f docs)" if "f = ''allow'' \<or> f = ''deny''"
proof (induction docs)
  case Nil
  show ?case by (simp add: defined_lists_def)
next
  case (Cons d ds)
  from Cons.prems obtain kvs where d: "d = JObj kvs" by (cases d) auto
  have "list_all is_str_array (defined_lists f [d])"
  proof (cases "map_of kvs ''permissions''")
    case None
    then show ?thesis by (simp add: d defined_lists_def permissions_field_def)
  next
    case (Some p)
    with Cons.prems d obtain pkvs where p: "p = JObj pkvs"
      using is_permissions_obj by auto
    from Cons.prems d Some p that show ?thesis
      by (auto simp: defined_lists_def permissions_field_def
          optional_str_array_def split: option.splits)
  qed
  with Cons show ?case by (simp add: defined_lists_Cons [of _ d ds])
qed

lemma str_arrays_map:
  "list_all is_str_array vs \<Longrightarrow> map (\<lambda>v. str_list (strings_of v)) vs = vs"
  by (induction vs) (auto simp: is_str_array_strings_of)

lemma merge_permission_lists_str_arrays:
  "list_all is_str_array vs \<Longrightarrow>
   merge_permission_lists vs = Inr (map JStr (first_seen (concat (map strings_of vs))))"
  using merge_permission_lists_strings [of "map strings_of vs"]
  by (simp add: comp_def str_arrays_map)

lemma contribution_str_arrays:
  assumes "list_all permission_document docs" and "f = ''allow'' \<or> f = ''deny''"
  shows "list_all is_str_array (concat (map (contribution f) docs))
    \<and> concat (map strings_of (concat (map (contribution f) docs)))
      = concat (map strings_of (defined_lists f docs))"
  using assms(1)
proof (induction docs)
  case Nil
  show ?case by (simp add: defined_lists_def)
next
  case (Cons d ds)
  from Cons.prems obtain kvs where d: "d = JObj kvs" by (cases d) auto
  have "list_all is_str_array (contribution f d)
      \<and> concat (map strings_of (contribution f d)) = concat (map strings_of (defined_lists f [d]))"
  proof (cases "map_of kvs ''permissions''")
    case None
    then show ?thesis
      by (simp add: d contribution_def defined_lists_def permissions_field_def)
  next
    case (Some p)
    with Cons.prems d obtain pkvs where p: "p = JObj pkvs"
      using is_permissions_obj by auto
    from Cons.prems d Some p assms(2) show ?thesis
      by (auto simp: contribution_def defined_lists_def permissions_field_def
          optional_str_array_def split: option.splits)
  qed
  with Cons show ?case by (simp add: defined_lists_Cons [of _ d ds])
qed

lemma merge_settings_files_documents:
  assumes loaded: "map parsed files = map Some (first # others)"
    and docs: "list_all permission_document (first # others)"
    and A: "A = map JStr (first_seen (concat (map strings_of (defined_lists ''allow'' (first # others)))))"
    and D: "D = map JStr (first_seen (concat (map strings_of (defined_lists ''deny'' (first # others)))))"
  shows "merge_settings_files parsed files =
     Inr (JObj (AList.update ''permissions''
       (JObj (AList.update ''deny'' (JArr D) (AList.update ''allow'' (JArr A) (permissions_of first))))
       (obj_fields first)))"
proof -
  from loaded have ne: "files \<noteq> []" by auto
  from docs obtain kvs where first: "first = JObj kvs" by (cases first) auto
  have load: "load_all parsed files = Inr (first # others)"
    using loaded by (rule load_all_Some)
  have coll: "collect_lists ([], []) (first # others)
      = Inr (defined_lists ''allow'' (first # others), defined_lists ''deny'' (first # others))"
    using collect_lists_documents [OF docs, of "[]" "[]"] by simp
  have mA: "merge_permission_lists (defined_lists ''allow'' (first # others)) = Inr A"
    unfolding A by (rule merge_permission_lists_str_arrays, rule defined_lists_str_arrays) (use docs in simp_all)
  have mD: "merge_permission_lists (defined_lists ''deny'' (first # others)) = Inr D"
    unfolding D by (rule merge_permission_lists_str_arrays, rule defined_lists_str_arrays) (use docs in simp_all)
  have copy: "py_copy first = Inr first"
    by (simp add: first)
  have step: "merge_settings_files parsed files =
      bind_err (ensure_permissions first) (\<lambda>merged.
      bind_err (set_permissions_field merged ''allow'' (JArr A)) (\<lambda>merged.
      set_permissions_field merged ''deny'' (JArr D)))"
    by (simp add: merge_settings_files_def ne load copy coll mA mD del: collect_lists.simps)
  show ?thesis
  proof (cases "map_of kvs ''permissions''")
    case None
    then show ?thesis
      by (simp add: step first ensure_permissions_def set_permissions_field_def permissions_of_def
          AList.update_conv')
  next
    case (Some p)
    with docs first obtain pkvs where p: "p = JObj pkvs"
      using is_permissions_obj by auto
    show ?thesis
      by (simp add: step first ensure_permissions_def set_permissions_field_def permissions_of_def
          AList.update_conv' Some p)
  qed
qed

section \<open>Properties of the document emitter\<close>

lemma unique_loop_first_seen:
  "unique_loop (S, r) xs = (S \<union> set xs, r @ first_seen (filter (\<lambda>x. x \<notin> S) xs))"
proof (induction xs arbitrary: S r)
  case Nil
  show ?case by simp
next
  case (Cons x xs)
  show ?case
  proof (cases "x \<in> S")
    case True
    then have "S \<union> set (x # xs) = S \<union> set xs" by auto
    with True Cons [of S r] show ?thesis by simp
  next
    case False
    have "first_seen (filter (\<lambda>y. y \<notin> insert x S) xs)
          = filter (\<lambda>y. y \<noteq> x) (first_seen (filter (\<lambda>y. y \<notin> S) xs))"
      by (simp add: first_seen_filter conj_commute)
    with False Cons [of "insert x S" "r @ [x]"] show ?thesis by simp
  qed
qed

lemma create_permissions_json_first_seen:
  "create_permissions_json ps
   = JObj [(''permissions'', JObj [(''allow'', str_list (first_seen ps)), (''deny'', JArr [])])]"
  by (simp add: create_permissions_json_def unique_loop_first_seen str_list_def)

text \<open>
  C6. For pairwise distinct patterns \<open>ps\<close>, \<^verbatim>\<open>create_permissions_json\<close> returns the document
  whose only top-level field is \<^verbatim>\<open>"permissions"\<close>, with \<^verbatim>\<open>"allow"\<close> equal to \<open>ps\<close>, same
  elements in the same order, and \<^verbatim>\<open>"deny"\<close> the empty list.
\<close>

theorem create_permissions_json_verbatim:
  assumes "distinct ps"
  shows "create_permissions_json ps
         = JObj [(''permissions'', JObj [(''allow'', JArr (map JStr ps)), (''deny'', JArr [])])]
    \<and> map fst (obj_fields (create_permissions_json ps)) = [''permissions'']
    \<and> permissions_field (create_permissions_json ps) ''allow'' = Some (str_list ps)
    \<and> permissions_field (create_permissions_json ps) ''deny'' = Some (str_list [])"
  using assms
  by (simp add: create_permissions_json_first_seen first_seen_distinct str_list_def
      permissions_field_def)

theorem create_permissions_json_verbatim_witness:
  "create_permissions_json [''Bash(gh pr view:*)'', ''Bash(gh pr list:*)'']
   = JObj [(''permissions'',
       JObj [(''allow'', JArr [JStr ''Bash(gh pr view:*)'', JStr ''Bash(gh pr list:*)'']),
             (''deny'', JArr [])])]"
  using create_permissions_json_verbatim [of "[''Bash(gh pr view:*)'', ''Bash(gh pr list:*)'']"]
  by simp

lemma inj_on_JStr: "inj_on JStr S"
  by (simp add: inj_on_def)

text \<open>
  C10. For every list of patterns, duplicates or not, \<^verbatim>\<open>create_permissions_json\<close> returns a
  document whose \<^verbatim>\<open>"allow"\<close> is the list with only first occurrences kept, which has no
  duplicates, and whose \<^verbatim>\<open>"deny"\<close> is empty: the document satisfies the no-duplicates
  invariant with no condition on the input.
\<close>

theorem create_permissions_json_deduplicates:
  "create_permissions_json ps
     = JObj [(''permissions'', JObj [(''allow'', str_list (first_seen ps)), (''deny'', JArr [])])]
   \<and> permissions_field (create_permissions_json ps) ''allow'' = Some (str_list (first_seen ps))
   \<and> permissions_field (create_permissions_json ps) ''deny'' = Some (JArr [])
   \<and> distinct (first_seen ps) \<and> set (first_seen ps) = set ps
   \<and> sorted_wrt (\<lambda>x y. first_index ps x < first_index ps y) (first_seen ps)
   \<and> no_duplicates (create_permissions_json ps)"
  by (simp add: create_permissions_json_first_seen permissions_field_def no_duplicates_def
      str_list_def distinct_map inj_on_JStr first_seen_ordered)

theorem create_permissions_json_deduplicates_witness:
  "create_permissions_json [''a'', ''b'', ''a'', ''c'', ''b'']
   = JObj [(''permissions'',
       JObj [(''allow'', JArr [JStr ''a'', JStr ''b'', JStr ''c'']), (''deny'', JArr [])])]
   \<and> no_duplicates (create_permissions_json [''a'', ''b'', ''a'', ''c'', ''b''])"
proof -
  note t = create_permissions_json_deduplicates [of "[''a'', ''b'', ''a'', ''c'', ''b'']"]
  from t have "create_permissions_json [''a'', ''b'', ''a'', ''c'', ''b'']
   = JObj [(''permissions'',
       JObj [(''allow'', JArr [JStr ''a'', JStr ''b'', JStr ''c'']), (''deny'', JArr [])])]"
    by (simp add: str_list_def)
  moreover from t have "no_duplicates (create_permissions_json [''a'', ''b'', ''a'', ''c'', ''b''])"
    by blast
  ultimately show ?thesis by blast
qed

section \<open>The result of the settings combiner\<close>

text \<open>
  C2. When every file loads to a well-formed permission document, \<^verbatim>\<open>merge_settings_files\<close>
  returns the first document with \<^verbatim>\<open>permissions.allow\<close> replaced by the deduplicator's result
  on the \<^verbatim>\<open>"allow"\<close> lists of the documents that define one, in input order, and likewise
  \<^verbatim>\<open>permissions.deny\<close>. Every other top-level field, and every other field of the first
  document's \<^verbatim>\<open>"permissions"\<close>, is the first document's. The result is the same when a
  document without \<^verbatim>\<open>"permissions"\<close> is counted as contributing an empty list.
\<close>

theorem merge_settings_files_combines:
  assumes "map parsed files = map Some (first # others)"
    and "list_all permission_document (first # others)"
  shows "\<exists>allow deny merged.
      merge_settings_files parsed files = Inr merged
    \<and> merge_permission_lists (defined_lists ''allow'' (first # others)) = Inr allow
    \<and> merge_permission_lists (defined_lists ''deny'' (first # others)) = Inr deny
    \<and> merge_permission_lists (concat (map (contribution ''allow'') (first # others))) = Inr allow
    \<and> merge_permission_lists (concat (map (contribution ''deny'') (first # others))) = Inr deny
    \<and> merged = JObj (AList.update ''permissions''
         (JObj (AList.update ''deny'' (JArr deny)
            (AList.update ''allow'' (JArr allow) (permissions_of first))))
         (obj_fields first))
    \<and> (\<forall>k. k \<noteq> ''permissions'' \<longrightarrow> json_get merged k = json_get first k)
    \<and> permissions_field merged ''allow'' = Some (JArr allow)
    \<and> permissions_field merged ''deny'' = Some (JArr deny)
    \<and> (\<forall>k. k \<noteq> ''allow'' \<and> k \<noteq> ''deny''
          \<longrightarrow> permissions_field merged k = permissions_field first k)"
proof -
  let ?docs = "first # others"
  define A where "A = map JStr (first_seen (concat (map strings_of (defined_lists ''allow'' ?docs))))"
  define D where "D = map JStr (first_seen (concat (map strings_of (defined_lists ''deny'' ?docs))))"
  define merged where "merged = JObj (AList.update ''permissions''
         (JObj (AList.update ''deny'' (JArr D) (AList.update ''allow'' (JArr A) (permissions_of first))))
         (obj_fields first))"
  have res: "merge_settings_files parsed files = Inr merged"
    unfolding merged_def using assms A_def D_def by (rule merge_settings_files_documents)
  have mA: "merge_permission_lists (defined_lists ''allow'' ?docs) = Inr A"
    unfolding A_def
    by (rule merge_permission_lists_str_arrays, rule defined_lists_str_arrays) (use assms in simp_all)
  have mD: "merge_permission_lists (defined_lists ''deny'' ?docs) = Inr D"
    unfolding D_def
    by (rule merge_permission_lists_str_arrays, rule defined_lists_str_arrays) (use assms in simp_all)
  have cA: "merge_permission_lists (concat (map (contribution ''allow'') ?docs)) = Inr A"
  proof -
    note c = contribution_str_arrays [OF assms(2), of "''allow''"]
    from c have e: "concat (map strings_of (defined_lists ''allow'' ?docs))
        = concat (map strings_of (concat (map (contribution ''allow'') ?docs)))"
      by simp
    from c have "list_all is_str_array (concat (map (contribution ''allow'') ?docs))"
      by simp
    then show ?thesis
      unfolding A_def e by (rule merge_permission_lists_str_arrays)
  qed
  have cD: "merge_permission_lists (concat (map (contribution ''deny'') ?docs)) = Inr D"
  proof -
    note c = contribution_str_arrays [OF assms(2), of "''deny''"]
    from c have e: "concat (map strings_of (defined_lists ''deny'' ?docs))
        = concat (map strings_of (concat (map (contribution ''deny'') ?docs)))"
      by simp
    from c have "list_all is_str_array (concat (map (contribution ''deny'') ?docs))"
      by simp
    then show ?thesis
      unfolding D_def e by (rule merge_permission_lists_str_arrays)
  qed
  from assms(2) obtain kvs where first: "first = JObj kvs" by (cases first) auto
  have others: "\<forall>k. k \<noteq> ''permissions'' \<longrightarrow> json_get merged k = json_get first k"
    by (simp add: merged_def first AList.update_conv')
  have pa: "permissions_field merged ''allow'' = Some (JArr A)"
    by (simp add: merged_def first permissions_field_def AList.update_conv')
  have pd: "permissions_field merged ''deny'' = Some (JArr D)"
    by (simp add: merged_def first permissions_field_def AList.update_conv')
  have po: "\<forall>k. k \<noteq> ''allow'' \<and> k \<noteq> ''deny''
          \<longrightarrow> permissions_field merged k = permissions_field first k"
  proof (cases "map_of kvs ''permissions''")
    case None
    then show ?thesis
      by (simp add: merged_def first permissions_field_def permissions_of_def AList.update_conv')
  next
    case (Some p)
    with assms(2) first obtain pkvs where p: "p = JObj pkvs"
      using is_permissions_obj by auto
    show ?thesis
      by (simp add: merged_def first permissions_field_def permissions_of_def AList.update_conv'
          Some p)
  qed
  from res mA mD cA cD others pa pd po show ?thesis
    unfolding merged_def by blast
qed

theorem merge_settings_files_combines_witness:
  "merge_settings_files example_parsed [''base.json'', ''bare.json'', ''extra.json'']
   = Inr (JObj [(''model'', JStr ''opus''),
       (''permissions'', JObj [(''allow'', str_list [''a'', ''b'', ''c'']),
           (''defaultMode'', JStr ''plan''), (''deny'', str_list [''d''])])])"
proof -
  have loaded: "map example_parsed [''base.json'', ''bare.json'', ''extra.json'']
      = map Some (example_base # [example_bare, example_extra])"
    by (simp add: example_parsed_def)
  have docs: "list_all permission_document (example_base # [example_bare, example_extra])"
    by (simp add: example_base_def example_bare_def example_extra_def str_list_def
        optional_str_array_def)
  have a: "merge_permission_lists (defined_lists ''allow'' (example_base # [example_bare, example_extra]))
      = Inr (map JStr [''a'', ''b'', ''c''])"
    using merge_permission_lists_strings [of "[[''a'', ''b'', ''a''], [''b'', ''c'']]"]
    by (simp add: defined_lists_def permissions_field_def example_base_def example_bare_def
        example_extra_def)
  have d: "merge_permission_lists (defined_lists ''deny'' (example_base # [example_bare, example_extra]))
      = Inr (map JStr [''d''])"
    using merge_permission_lists_strings [of "[[''d'']]"]
    by (simp add: defined_lists_def permissions_field_def example_base_def example_bare_def
        example_extra_def)
  from merge_settings_files_combines [OF loaded docs] a d
  show ?thesis
    by (auto simp: example_base_def permissions_of_def str_list_def)
qed

text \<open>
  C7. Round trip: for pairwise distinct patterns \<open>ps\<close>, the document \<^verbatim>\<open>create_permissions_json\<close>
  makes of \<open>ps\<close>, given to \<^verbatim>\<open>merge_settings_files\<close> as its only input, comes back unchanged:
  \<^verbatim>\<open>"allow"\<close> is \<open>ps\<close> and \<^verbatim>\<open>"deny"\<close> is empty.
\<close>

theorem emitter_combiner_round_trip:
  assumes "distinct ps" and "parsed f = Some (create_permissions_json ps)"
  shows "merge_settings_files parsed [f] = Inr (create_permissions_json ps)
    \<and> permissions_field (create_permissions_json ps) ''allow'' = Some (str_list ps)
    \<and> permissions_field (create_permissions_json ps) ''deny'' = Some (str_list [])"
proof -
  let ?doc = "JObj [(''permissions'', JObj [(''allow'', str_list ps), (''deny'', JArr [])])]"
  have doc: "create_permissions_json ps = ?doc"
    using assms(1) by (simp add: create_permissions_json_first_seen first_seen_distinct)
  have loaded: "map parsed [f] = map Some (?doc # [])"
    using assms(2) doc by simp
  have wf: "list_all permission_document (?doc # [])"
    by (simp add: optional_str_array_def str_list_def list_all_iff)
  have "merge_settings_files parsed [f] = Inr ?doc"
    using merge_settings_files_documents [OF loaded wf refl refl] assms(1)
    by (simp add: defined_lists_def permissions_field_def permissions_of_def str_list_def
        first_seen_distinct comp_def)
  then show ?thesis
    by (simp add: doc permissions_field_def str_list_def)
qed

theorem emitter_combiner_round_trip_witness:
  "merge_settings_files [''gh-pr.json'' \<mapsto> create_permissions_json [''x'', ''y'']] [''gh-pr.json'']
   = Inr (JObj [(''permissions'', JObj [(''allow'', JArr [JStr ''x'', JStr ''y'']), (''deny'', JArr [])])])"
  using emitter_combiner_round_trip [of "[''x'', ''y'']"
      "[''gh-pr.json'' \<mapsto> create_permissions_json [''x'', ''y'']]" "''gh-pr.json''"]
    create_permissions_json_first_seen [of "[''x'', ''y'']"]
  by (simp add: str_list_def)

section \<open>The error for no input\<close>

lemma bind_err_never:
  "m \<noteq> Inl E \<Longrightarrow> (\<And>x. f x \<noteq> Inl E) \<Longrightarrow> bind_err m f \<noteq> Inl E"
  by (cases m) simp_all

lemma load_all_never: "load_all parsed files \<noteq> Inl NoFilesProvided"
  by (induction files) (auto simp: load_json_file_def split: option.splits sum.splits)

lemma py_copy_never: "py_copy v \<noteq> Inl NoFilesProvided"
  by (cases v) simp_all

lemma py_get_never: "py_get v k d \<noteq> Inl NoFilesProvided"
  by (cases v) simp_all

lemma py_contains_never: "py_contains v k \<noteq> Inl NoFilesProvided"
  by (cases v) simp_all

lemma py_getitem_never: "py_getitem v k \<noteq> Inl NoFilesProvided"
  by (cases v) (simp_all split: option.splits)

lemma py_setitem_never: "py_setitem v k w \<noteq> Inl NoFilesProvided"
  by (cases v) simp_all

lemma py_iter_never: "py_iter v \<noteq> Inl NoFilesProvided"
  by (cases v) simp_all

lemma append_if_defined_never: "append_if_defined p field ls \<noteq> Inl NoFilesProvided"
  unfolding append_if_defined_def
  by (intro bind_err_never py_contains_never) (simp add: bind_err_never py_getitem_never)

lemma collect_step_never: "collect_step st settings \<noteq> Inl NoFilesProvided"
  unfolding collect_step_def
  by (cases st) (simp add: bind_err_never py_get_never append_if_defined_never)

lemma collect_lists_never: "collect_lists st docs \<noteq> Inl NoFilesProvided"
proof (induction docs arbitrary: st)
  case Nil
  show ?case by simp
next
  case (Cons d ds)
  then show ?case
    using collect_step_never [of st d] by (cases "collect_step st d") simp_all
qed

lemma merge_items_never: "merge_items st items \<noteq> Inl NoFilesProvided"
  by (induction st items rule: merge_items.induct) simp_all

lemma merge_lists_never: "merge_lists st ls \<noteq> Inl NoFilesProvided"
proof (induction ls arbitrary: st)
  case Nil
  show ?case by simp
next
  case (Cons l ls)
  show ?case
  proof (cases "py_iter l")
    case (Inl e)
    with py_iter_never [of l] show ?thesis by simp
  next
    case (Inr items)
    show ?thesis
    proof (cases "merge_items st items")
      case (Inl e)
      with merge_items_never [of st items] Inr show ?thesis by simp
    next
      case Inr': (Inr st')
      with Inr Cons [of st'] show ?thesis by simp
    qed
  qed
qed

lemma merge_permission_lists_never: "merge_permission_lists ls \<noteq> Inl NoFilesProvided"
  using merge_lists_never [of "({}, [])" ls]
  by (cases "merge_lists ({}, []) ls") (auto simp: merge_permission_lists_def)

lemma ensure_permissions_never: "ensure_permissions m \<noteq> Inl NoFilesProvided"
  unfolding ensure_permissions_def
  by (intro bind_err_never py_contains_never) (simp add: py_setitem_never)

lemma set_permissions_field_never: "set_permissions_field m field v \<noteq> Inl NoFilesProvided"
  unfolding set_permissions_field_def
  by (intro bind_err_never py_getitem_never py_setitem_never)

lemma overlay_steps_never:
  "bind_err (ensure_permissions merged) (\<lambda>merged.
   bind_err (merge_permission_lists allow_lists) (\<lambda>allow.
   bind_err (set_permissions_field merged ''allow'' (JArr allow)) (\<lambda>merged.
   bind_err (merge_permission_lists deny_lists) (\<lambda>deny.
   set_permissions_field merged ''deny'' (JArr deny))))) \<noteq> Inl NoFilesProvided"
  by (intro bind_err_never ensure_permissions_never merge_permission_lists_never
      set_permissions_field_never)

lemma first_copy_never:
  "(case settings_list of [] \<Rightarrow> Inl IndexError | first # _ \<Rightarrow> py_copy first)
   \<noteq> Inl NoFilesProvided"
  by (simp add: py_copy_never split: list.splits)

text \<open>
  C4. On an empty list of files \<^verbatim>\<open>merge_settings_files\<close> raises the "no files provided"
  error and returns no document; on a non-empty list it never raises that error, whatever
  else happens.
\<close>

theorem merge_settings_files_no_input:
  "merge_settings_files parsed [] = Inl NoFilesProvided
   \<and> (files \<noteq> [] \<longrightarrow> merge_settings_files parsed files \<noteq> Inl NoFilesProvided)"
proof -
  have "merge_settings_files parsed files \<noteq> Inl NoFilesProvided" if "files \<noteq> []"
  proof -
    have "bind_err (load_all parsed files) (\<lambda>settings_list.
        bind_err (case settings_list of [] \<Rightarrow> Inl IndexError | first # _ \<Rightarrow> py_copy first)
          (\<lambda>merged.
        bind_err (collect_lists ([], []) settings_list) (\<lambda>(allow_lists, deny_lists).
        bind_err (ensure_permissions merged) (\<lambda>merged.
        bind_err (merge_permission_lists allow_lists) (\<lambda>allow.
        bind_err (set_permissions_field merged ''allow'' (JArr allow)) (\<lambda>merged.
        bind_err (merge_permission_lists deny_lists) (\<lambda>deny.
        set_permissions_field merged ''deny'' (JArr deny)))))))) \<noteq> Inl NoFilesProvided"
      by (intro bind_err_never load_all_never collect_lists_never first_copy_never)
        (simp add: overlay_steps_never split: prod.splits)
    with that show ?thesis by (simp add: merge_settings_files_def)
  qed
  then show ?thesis by (simp add: merge_settings_files_def)
qed

theorem merge_settings_files_no_input_witness:
  "merge_settings_files example_parsed [] = Inl NoFilesProvided
   \<and> merge_settings_files example_parsed [''base.json''] \<noteq> Inl NoFilesProvided
   \<and> merge_settings_files example_parsed [''missing.json''] = Inl SystemExit"
  using merge_settings_files_no_input [of example_parsed "[''base.json'']"]
  by (simp add: merge_settings_files_def example_parsed_def load_json_file_def)

section \<open>Properties of the pattern extractor\<close>

lemma backtick_no_space [simp]: "\<not> py_isspace (CHR 0x60)"
  by (simp add: py_isspace_def)

lemma match_bullet_sound:
  assumes "match_bullet t = Some capture"
  shows "bullet_line t capture"
proof -
  from assms obtain marker s1 where t: "t = marker # s1"
    by (cases t) (auto simp: match_bullet_def)
  let ?spaces = "takeWhile py_isspace s1"
  let ?s2 = "dropWhile py_isspace s1"
  from assms t have marker: "marker = CHR ''*'' \<or> marker = CHR ''-''"
    by (auto simp: match_bullet_def split: if_splits)
  from assms t marker have spaces: "?spaces \<noteq> []"
    by (auto simp: match_bullet_def Let_def split: if_splits)
  from assms t marker spaces obtain s3 where s2: "?s2 = CHR 0x60 # s3"
    by (auto simp: match_bullet_def Let_def split: if_splits list.splits)
  let ?content = "takeWhile (\<lambda>c. c \<noteq> CHR 0x60) s3"
  let ?s4 = "dropWhile (\<lambda>c. c \<noteq> CHR 0x60) s3"
  from assms t marker spaces s2 have content: "?content \<noteq> []"
    by (auto simp: match_bullet_def Let_def split: if_splits)
  from assms t marker spaces s2 content obtain closing rest where s4: "?s4 = closing # rest"
    by (auto simp: match_bullet_def Let_def split: if_splits list.splits)
  from assms t marker spaces s2 content s4 have cap: "capture = ?content"
    by (auto simp: match_bullet_def Let_def split: if_splits)
  have "\<not> (closing \<noteq> CHR 0x60)"
    using hd_dropWhile [of "\<lambda>c. c \<noteq> CHR 0x60" s3] s4 by simp
  then have closing: "closing = CHR 0x60" by simp
  have "s1 = ?spaces @ ?s2" by simp
  moreover have "s3 = ?content @ ?s4" by simp
  ultimately have "t = marker # ?spaces @ [CHR 0x60] @ capture @ [CHR 0x60] @ rest"
    using t s2 s4 closing cap by simp
  moreover have "list_all py_isspace ?spaces"
    by (auto simp: list_all_iff dest: set_takeWhileD)
  moreover have "CHR 0x60 \<notin> set capture"
    unfolding cap by (auto dest: set_takeWhileD)
  ultimately show ?thesis
    unfolding bullet_line_def using marker spaces content cap by blast
qed

lemma match_bullet_complete:
  assumes "bullet_line t capture"
  shows "match_bullet t = Some capture"
proof -
  from assms obtain marker spaces rest where
    t: "t = marker # spaces @ [CHR 0x60] @ capture @ [CHR 0x60] @ rest"
    and marker: "marker = CHR ''*'' \<or> marker = CHR ''-''"
    and spaces: "spaces \<noteq> []" "list_all py_isspace spaces"
    and cap: "capture \<noteq> []" "CHR 0x60 \<notin> set capture"
    unfolding bullet_line_def by blast
  let ?s1 = "spaces @ [CHR 0x60] @ capture @ [CHR 0x60] @ rest"
  have tw: "takeWhile py_isspace ?s1 = spaces"
    using spaces(2) by (simp add: list_all_iff takeWhile_append2)
  have dw: "dropWhile py_isspace ?s1 = CHR 0x60 # capture @ [CHR 0x60] @ rest"
    using spaces(2) by (simp add: list_all_iff dropWhile_append2)
  have tc: "takeWhile (\<lambda>c. c \<noteq> CHR 0x60) (capture @ [CHR 0x60] @ rest) = capture"
    using cap(2) by (subst takeWhile_append2) auto
  have dc: "dropWhile (\<lambda>c. c \<noteq> CHR 0x60) (capture @ [CHR 0x60] @ rest) = CHR 0x60 # rest"
    using cap(2) by (subst dropWhile_append2) auto
  show ?thesis
    unfolding t match_bullet_def using marker spaces(1) cap(1)
    by (simp only: list.case tw dw tc dc Let_def) auto
qed

lemma match_bullet_iff: "match_bullet t = Some capture \<longleftrightarrow> bullet_line t capture"
  using match_bullet_sound match_bullet_complete by blast

lemma parse_lines_captures: "parse_lines patterns lines = patterns @ captures lines"
proof (induction lines arbitrary: patterns)
  case Nil
  show ?case by (simp add: captures_def)
next
  case (Cons line rest)
  then show ?case
    by (cases "match_bullet (py_strip line)") (simp_all add: captures_def)
qed

lemma py_strip_trims:
  "\<exists>before after. line = before @ py_strip line @ after
     \<and> list_all py_isspace before \<and> list_all py_isspace after
     \<and> (py_strip line = [] \<or>
          \<not> py_isspace (hd (py_strip line)) \<and> \<not> py_isspace (last (py_strip line)))"
proof -
  let ?m = "dropWhile py_isspace line"
  let ?a = "takeWhile py_isspace line"
  let ?b = "rev (takeWhile py_isspace (rev ?m))"
  have m: "?m = py_strip line @ ?b"
  proof -
    have "py_strip line @ ?b
        = rev (takeWhile py_isspace (rev ?m) @ dropWhile py_isspace (rev ?m))"
      by (simp only: py_strip_def rev_append)
    also have "\<dots> = rev (rev ?m)"
      by (simp only: takeWhile_dropWhile_id)
    also have "\<dots> = ?m"
      by (simp only: rev_rev_ident)
    finally show ?thesis by (rule sym)
  qed
  have "line = ?a @ ?m" by simp
  with m have split: "line = ?a @ py_strip line @ ?b" by simp
  have a: "list_all py_isspace ?a"
    by (auto simp: list_all_iff dest: set_takeWhileD)
  have b: "list_all py_isspace ?b"
    by (auto simp: list_all_iff dest: set_takeWhileD)
  have ends: "\<not> py_isspace (hd (py_strip line)) \<and> \<not> py_isspace (last (py_strip line))"
    if ne: "py_strip line \<noteq> []"
  proof -
    from ne have d: "dropWhile py_isspace (rev ?m) \<noteq> []"
      unfolding py_strip_def by (simp only: rev_is_Nil_conv not_False_eq_True)
    have "last (py_strip line) = hd (dropWhile py_isspace (rev ?m))"
      unfolding py_strip_def using d by (simp only: last_rev)
    moreover from d have "\<not> py_isspace (hd (dropWhile py_isspace (rev ?m)))"
      by (rule hd_dropWhile)
    ultimately have l: "\<not> py_isspace (last (py_strip line))"
      by simp
    from ne m have mne: "?m \<noteq> []"
      by (metis append_is_Nil_conv)
    then have "\<not> py_isspace (hd ?m)"
      by (rule hd_dropWhile)
    moreover from m ne have "hd ?m = hd (py_strip line)"
      by (metis hd_append2)
    ultimately show ?thesis using l by simp
  qed
  from split a b ends show ?thesis by blast
qed

lemma match_bullet_None: "match_bullet t = None \<longleftrightarrow> (\<forall>capture. \<not> bullet_line t capture)"
  using match_bullet_iff [of t] by (cases "match_bullet t") auto

lemma example_markdown_lines:
  "text_lines example_markdown
   = [''* `Bash(npm run test:*)`\<newline>'', ''not a bullet\<newline>'', ''- `Bash(npm run lint)`\<newline>'']"
  by (simp add: example_markdown_def)

lemma captures_example:
  "captures [''* `Bash(npm run test:*)`\<newline>'', ''not a bullet\<newline>'', ''- `Bash(npm run lint)`\<newline>'']
   = [''Bash(npm run test:*)'', ''Bash(npm run lint)'']"
  by (simp add: captures_def py_strip_def py_isspace_def match_bullet_def)

text \<open>
  C5. For every text, parsing and then deduplicating returns, in line order and keeping first
  occurrences, exactly the captures of the lines that, once leading and trailing whitespace is
  trimmed, are an asterisk or hyphen, one or more whitespace characters, a backtick, one or
  more characters other than a backtick (the capture) and a closing backtick, whatever
  follows it. Every other line is skipped and no text makes the parser fail. The three lines
  \<^verbatim>\<open>* `Bash(npm run test:*)`\<close>, \<^verbatim>\<open>not a bullet\<close>, \<^verbatim>\<open>- `Bash(npm run lint)`\<close> give
  \<^verbatim>\<open>Bash(npm run test:*)\<close> and \<^verbatim>\<open>Bash(npm run lint)\<close>.
\<close>

theorem pattern_extractor_pipeline:
  "(match_bullet t = Some capture \<longleftrightarrow> bullet_line t capture)
   \<and> (\<exists>before after. line = before @ py_strip line @ after
         \<and> list_all py_isspace before \<and> list_all py_isspace after
         \<and> (py_strip line = [] \<or>
              \<not> py_isspace (hd (py_strip line)) \<and> \<not> py_isspace (last (py_strip line))))
   \<and> captures [] = []
   \<and> (bullet_line (py_strip line) capture \<longrightarrow> captures (line # rest) = capture # captures rest)
   \<and> ((\<forall>c. \<not> bullet_line (py_strip line) c) \<longrightarrow> captures (line # rest) = captures rest)
   \<and> parse_lines [] lines = captures lines
   \<and> parse_markdown_file (fs(p \<mapsto> text)) p = Inr (captures (text_lines text))
   \<and> permissions_field (create_permissions_json (parse_lines [] lines)) ''allow''
       = Some (str_list (first_seen (captures lines)))
   \<and> parse_markdown_file [''gh-npm.md'' \<mapsto> example_markdown] ''gh-npm.md''
       = Inr [''Bash(npm run test:*)'', ''Bash(npm run lint)'']
   \<and> permissions_field (create_permissions_json (parse_lines []
         [''* `Bash(npm run test:*)`'', ''not a bullet'', ''- `Bash(npm run lint)`''])) ''allow''
       = Some (str_list [''Bash(npm run test:*)'', ''Bash(npm run lint)''])"
proof -
  have 1: "bullet_line (py_strip line) capture \<longrightarrow> captures (line # rest) = capture # captures rest"
    by (simp add: captures_def match_bullet_iff [symmetric])
  have 2: "(\<forall>c. \<not> bullet_line (py_strip line) c) \<longrightarrow> captures (line # rest) = captures rest"
    by (simp add: captures_def match_bullet_None [symmetric])
  have 3: "parse_lines [] lines = captures lines"
    by (simp add: parse_lines_captures)
  have 4: "parse_markdown_file (fs(p \<mapsto> text)) p = Inr (captures (text_lines text))"
    by (simp add: parse_markdown_file_def parse_lines_captures)
  have 5: "permissions_field (create_permissions_json (parse_lines [] lines)) ''allow''
       = Some (str_list (first_seen (captures lines)))"
    by (simp add: 3 create_permissions_json_first_seen permissions_field_def)
  have 6: "parse_markdown_file [''gh-npm.md'' \<mapsto> example_markdown] ''gh-npm.md''
       = Inr [''Bash(npm run test:*)'', ''Bash(npm run lint)'']"
    by (simp add: parse_markdown_file_def parse_lines_captures example_markdown_lines
        captures_example)
  have 7: "permissions_field (create_permissions_json (parse_lines []
         [''* `Bash(npm run test:*)`'', ''not a bullet'', ''- `Bash(npm run lint)`''])) ''allow''
       = Some (str_list [''Bash(npm run test:*)'', ''Bash(npm run lint)''])"
    by (simp add: parse_lines_captures create_permissions_json_first_seen permissions_field_def
        captures_def py_strip_def py_isspace_def match_bullet_def)
  have 0: "captures [] = []"
    by (simp add: captures_def)
  from match_bullet_iff [of t capture] py_strip_trims [of line] 0 1 2 3 4 5 6 7
  show ?thesis by blast
qed

theorem pattern_extractor_pipeline_witness:
  "bullet_line ''- `gh pr view:*` (read only)'' ''gh pr view:*''
   \<and> captures [''  - `gh pr view:*` (read only)  \<newline>'', ''# Title\<newline>'', ''* `gh pr view:*`\<newline>'']
       = [''gh pr view:*'', ''gh pr view:*'']
   \<and> permissions_field (create_permissions_json (parse_lines []
         [''  - `gh pr view:*` (read only)  \<newline>'', ''# Title\<newline>'', ''* `gh pr view:*`\<newline>''])) ''allow''
       = Some (str_list [''gh pr view:*''])"
proof -
  let ?lines = "[''  - `gh pr view:*` (read only)  \<newline>'', ''# Title\<newline>'', ''* `gh pr view:*`\<newline>'']"
  have m: "match_bullet ''- `gh pr view:*` (read only)'' = Some ''gh pr view:*''"
    by (simp add: match_bullet_def py_isspace_def)
  have c: "captures ?lines = [''gh pr view:*'', ''gh pr view:*'']"
    by (simp add: captures_def py_strip_def py_isspace_def match_bullet_def)
  note t = pattern_extractor_pipeline
    [of "''- `gh pr view:*` (read only)''" "''gh pr view:*''" "[]" "[]" ?lines Map.empty "[]" "[]"]
  from t m have "bullet_line ''- `gh pr view:*` (read only)'' ''gh pr view:*''"
    by blast
  moreover from t have "permissions_field (create_permissions_json (parse_lines [] ?lines)) ''allow''
       = Some (str_list (first_seen (captures ?lines)))"
    by blast
  then have "permissions_field (create_permissions_json (parse_lines [] ?lines)) ''allow''
       = Some (str_list [''gh pr view:*''])"
    by (simp only: c) simp
  ultimately show ?thesis using c by blast
qed

declare decimal.simps [simp del]

declare find_candidate.simps [code]

section \<open>Properties of the backup name\<close>

lemma path_parent_name: "p \<noteq> ''.'' \<Longrightarrow> path_parent p @ path_name p = p"
proof -
  assume p: "p \<noteq> ''.''"
  have "rev (dropWhile (\<lambda>c. c \<noteq> CHR ''/'') (rev p)) @ rev (takeWhile (\<lambda>c. c \<noteq> CHR ''/'') (rev p))
        = rev (takeWhile (\<lambda>c. c \<noteq> CHR ''/'') (rev p) @ dropWhile (\<lambda>c. c \<noteq> CHR ''/'') (rev p))"
    by (simp only: rev_append)
  also have "\<dots> = p"
    by (simp only: takeWhile_dropWhile_id rev_rev_ident)
  finally show ?thesis using p by (simp add: path_parent_def path_name_def)
qed

lemma path_name_no_slash: "CHR ''/'' \<notin> set (path_name p)"
  by (auto simp: path_name_def dest: set_takeWhileD)

lemma path_suffix_cases:
  "path_suffix p = [] \<or>
   (\<exists>i. path_suffix p = drop i (path_name p) \<and> i < length (path_name p)
        \<and> path_name p ! i = CHR ''.'')"
proof (cases "rfind_dot (path_name p)")
  case None
  then show ?thesis by (simp add: path_suffix_def)
next
  case (Some i)
  let ?name = "path_name p"
  let ?t = "takeWhile (\<lambda>c. c \<noteq> CHR ''.'') (rev ?name)"
  from Some have dot: "CHR ''.'' \<in> set ?name" and i: "i = length ?name - 1 - length ?t"
    by (auto simp: rfind_dot_def split: if_splits)
  from dot have "dropWhile (\<lambda>c. c \<noteq> CHR ''.'') (rev ?name) \<noteq> []"
    by simp
  moreover have "length ?t + length (dropWhile (\<lambda>c. c \<noteq> CHR ''.'') (rev ?name))
      = length (rev ?name)"
    by (simp only: length_append [symmetric] takeWhile_dropWhile_id)
  ultimately have lt: "length ?t < length (rev ?name)"
    by (cases "dropWhile (\<lambda>c. c \<noteq> CHR ''.'') (rev ?name)") simp_all
  then have "rev ?name ! length ?t = CHR ''.''"
    using nth_length_takeWhile [of "\<lambda>c. c \<noteq> CHR ''.''" "rev ?name"] by simp
  with lt i have "?name ! i = CHR ''.''"
    by (simp add: rev_nth)
  moreover from lt i have "i < length ?name" by simp
  ultimately show ?thesis
    using Some by (auto simp: path_suffix_def Let_def)
qed

lemma with_suffix_append:
  assumes name: "path_name p \<noteq> []" and s: "s \<noteq> []" "hd s = CHR ''.''" "s \<noteq> ''.''"
    "CHR ''/'' \<notin> set s"
  shows "with_suffix p (path_suffix p @ s) = Inr (p @ s)"
proof -
  let ?name = "path_name p"
  let ?old = "path_suffix p"
  from name have p: "p \<noteq> ''.''" by (auto simp: path_name_def)
  from path_suffix_cases [of p]
  have old: "?old = [] \<or> (\<exists>i. ?old = drop i ?name \<and> i < length ?name \<and> ?name ! i = CHR ''.'')" .
  have noslash: "CHR ''/'' \<notin> set (?old @ s)"
    using old s(4) path_name_no_slash [of p] by (auto dest: in_set_dropD)
  have hd: "hd (?old @ s) = CHR ''.''"
    using old s(1,2) by (auto simp: hd_append hd_drop_conv_nth)
  have nodot: "?old @ s \<noteq> ''.''"
    using old s(1,3) by (cases ?old) auto
  have cut: "(if ?old = [] then ?name @ (?old @ s)
              else take (length ?name - length ?old) ?name @ (?old @ s)) = ?name @ s"
    using old by auto
  have "with_suffix p (?old @ s) = Inr (path_parent p @ (?name @ s))"
    unfolding with_suffix_def using noslash hd nodot name s(1)
    by (simp only: Let_def cut) auto
  then show ?thesis
    using path_parent_name [OF p] by (simp add: append_assoc [symmetric] del: append_assoc)
qed

lemma of_char_digit: "n < 10 \<Longrightarrow> of_char (digit n) = 48 + n"
  by (simp add: digit_def)

lemma digit_inj:
  assumes "n < 10" and "m < 10" and "digit n = digit m"
  shows "n = m"
proof -
  from assms(3) have "(of_char (digit n) :: nat) = of_char (digit m)"
    by (rule arg_cong)
  then have "48 + n = 48 + m"
    by (simp only: of_char_digit [OF assms(1)] of_char_digit [OF assms(2)])
  then show ?thesis by simp
qed

lemma decimal_not_Nil: "decimal n \<noteq> []"
  by (subst decimal.simps) simp

lemma decimal_digits: "c \<in> set (decimal n) \<Longrightarrow> \<exists>d<10. c = digit d"
proof (induction n rule: decimal.induct)
  case (1 n)
  show ?case
  proof (cases "n < 10")
    case True
    with "1.prems" show ?thesis
      by (subst (asm) decimal.simps) auto
  next
    case False
    from "1.prems" have "c \<in> set (decimal (n div 10)) \<or> c = digit (n mod 10)"
      by (subst (asm) decimal.simps) (use False in auto)
    then show ?thesis
    proof
      assume "c \<in> set (decimal (n div 10))"
      with False show ?thesis using "1.IH" by blast
    next
      assume "c = digit (n mod 10)"
      then show ?thesis by (intro exI [of _ "n mod 10"]) simp
    qed
  qed
qed

lemma decimal_no_slash: "CHR ''/'' \<notin> set (decimal n)"
proof
  assume "CHR ''/'' \<in> set (decimal n)"
  then obtain d where "d < 10" "CHR ''/'' = digit d"
    using decimal_digits by blast
  then have "of_char (CHR ''/'') = 48 + d"
    using of_char_digit [of d] by simp
  then show False by simp
qed

lemma decimal_inj: "decimal n = decimal m \<Longrightarrow> n = m"
proof (induction n arbitrary: m rule: decimal.induct)
  case (1 n)
  have n: "decimal n = (if n < 10 then [digit n] else decimal (n div 10) @ [digit (n mod 10)])"
    by (rule decimal.simps)
  have m: "decimal m = (if m < 10 then [digit m] else decimal (m div 10) @ [digit (m mod 10)])"
    by (rule decimal.simps)
  show ?case
  proof (cases "n < 10")
    case True
    show ?thesis
    proof (cases "m < 10")
      case m10: True
      with True "1.prems" n m show ?thesis
        by (simp add: digit_inj)
    next
      case False
      with True "1.prems" n m have "decimal (m div 10) = []"
        by simp
      with decimal_not_Nil show ?thesis by blast
    qed
  next
    case False
    show ?thesis
    proof (cases "m < 10")
      case True
      with False "1.prems" n m have "decimal (n div 10) = []"
        by simp
      with decimal_not_Nil show ?thesis by blast
    next
      case m10: False
      from False m10 "1.prems" n m
      have a: "decimal (n div 10) = decimal (m div 10)" and b: "digit (n mod 10) = digit (m mod 10)"
        by simp_all
      from False a have "n div 10 = m div 10"
        by (rule "1.IH")
      moreover have "n mod 10 = m mod 10"
        using b digit_inj [of "n mod 10" "m mod 10"] by simp
      ultimately show ?thesis
        by (metis div_mult_mod_eq)
    qed
  qed
qed

lemma backup_name_inj: "backup_name p n = backup_name p m \<Longrightarrow> n = m"
  by (auto simp: backup_name_def decimal_inj split: if_splits)

lemma backup_name_differs: "backup_name p n \<noteq> p"
  by (auto simp: backup_name_def)

lemma with_suffix_bak:
  "path_name p \<noteq> [] \<Longrightarrow> with_suffix p (path_suffix p @ ''.bak'') = Inr (backup_name p 0)"
  by (simp add: with_suffix_append backup_name_def)

lemma with_suffix_bak_idx:
  "path_name p \<noteq> [] \<Longrightarrow> 0 < idx \<Longrightarrow>
   with_suffix p (path_suffix p @ ''.bak.'' @ decimal idx) = Inr (backup_name p idx)"
  using with_suffix_append [of p "''.bak.'' @ decimal idx"]
  by (simp add: backup_name_def decimal_no_slash)

lemma find_candidate_step:
  assumes "path_name p \<noteq> []" and "0 < idx"
  shows "find_candidate exists_path p idx =
     (if \<not> exists_path (backup_name p idx) then Some (Inr (backup_name p idx))
      else find_candidate exists_path p (idx + 1))"
  by (subst find_candidate.simps) (simp only: with_suffix_bak_idx [OF assms] sum.case)

lemma find_candidate_finds:
  assumes "path_name p \<noteq> []" and "0 < k" and "k \<le> n"
    and "\<not> exists_path (backup_name p n)"
    and "\<forall>m. k \<le> m \<and> m < n \<longrightarrow> exists_path (backup_name p m)"
  shows "find_candidate exists_path p k = Some (Inr (backup_name p n))"
  using assms(2,3,5)
proof (induction "n - k" arbitrary: k)
  case 0
  then have "k = n" by simp
  with assms(1,4) "0.prems"(1) show ?case
    by (simp add: find_candidate_step)
next
  case (Suc d)
  then have lt: "k < n" by simp
  with Suc.prems have ex: "exists_path (backup_name p k)" by simp
  have "find_candidate exists_path p (k + 1) = Some (Inr (backup_name p n))"
    by (rule Suc.hyps(1)) (use Suc.hyps(2) Suc.prems lt in auto)
  with ex assms(1) Suc.prems(1) show ?case
    by (simp add: find_candidate_step)
qed

lemma first_free_backup_name:
  assumes "finite {q. exists_path q}"
  shows "\<exists>n. \<not> exists_path (backup_name p n) \<and> (\<forall>m<n. exists_path (backup_name p m))"
proof -
  have "inj (backup_name p)"
    by (rule injI) (rule backup_name_inj)
  then have "finite (backup_name p -` {q. exists_path q})"
    using assms by (rule finite_vimageI [rotated])
  then have "\<exists>n. n \<notin> backup_name p -` {q. exists_path q}"
    using ex_new_if_finite [OF infinite_UNIV_nat] by blast
  then have ex: "\<exists>n. \<not> exists_path (backup_name p n)" by simp
  define n where "n = (LEAST n. \<not> exists_path (backup_name p n))"
  from ex have "\<not> exists_path (backup_name p n)"
    unfolding n_def by (rule LeastI_ex)
  moreover have "\<forall>m<n. exists_path (backup_name p m)"
    unfolding n_def using not_less_Least by blast
  ultimately show ?thesis by blast
qed

lemma choose_backup_path_first_free:
  assumes "finite {q. exists_path q}" and name: "path_name p \<noteq> []"
  shows "\<exists>n. choose_backup_path exists_path p = Some (Inr (backup_name p n))
    \<and> \<not> exists_path (backup_name p n) \<and> (\<forall>m<n. exists_path (backup_name p m))"
proof -
  from first_free_backup_name [OF assms(1), of p] obtain n where
    free: "\<not> exists_path (backup_name p n)" and taken: "\<forall>m<n. exists_path (backup_name p m)"
    by blast
  have "choose_backup_path exists_path p = Some (Inr (backup_name p n))"
  proof (cases "n = 0")
    case True
    with free name show ?thesis
      by (simp add: choose_backup_path_def with_suffix_bak)
  next
    case False
    with taken have "exists_path (backup_name p 0)" by simp
    moreover have "find_candidate exists_path p 1 = Some (Inr (backup_name p n))"
      by (rule find_candidate_finds) (use name False free taken in auto)
    ultimately show ?thesis
      using name by (simp add: choose_backup_path_def with_suffix_bak)
  qed
  with free taken show ?thesis by blast
qed

text \<open>
  C8. When the output path exists and neither \<^verbatim>\<open>--no-backup\<close> nor \<^verbatim>\<open>--force\<close> is given, the
  combiner copies the existing file to the first of \<^verbatim>\<open><path>.bak\<close>, \<^verbatim>\<open><path>.bak.1\<close>,
  \<^verbatim>\<open><path>.bak.2\<close>, ... that does not exist, and then writes the output file. On a file
  system with finitely many files the search ends; no file that existed before, backups
  included, is changed, except the output file itself.
\<close>

theorem backup_first_free_name:
  assumes "output args = Some output_path" and "fs output_path = Some old"
    and "\<not> no_backup args" and "\<not> force args"
    and "finite (dom fs)" and "path_name output_path \<noteq> []"
  shows "\<exists>n fs'. write_output args output_text fs = Some (Inr (fs', []))
    \<and> fs (backup_name output_path n) = None
    \<and> (\<forall>m<n. fs (backup_name output_path m) \<noteq> None)
    \<and> fs' (backup_name output_path n) = Some old
    \<and> fs' output_path = Some (output_text @ [CHR 0x0A])
    \<and> (\<forall>p. p \<noteq> output_path \<and> p \<noteq> backup_name output_path n \<longrightarrow> fs' p = fs p)
    \<and> (\<forall>p. p \<noteq> output_path \<and> fs p \<noteq> None \<longrightarrow> fs' p = fs p)"
proof -
  have fin: "finite {q. fs q \<noteq> None}"
    using assms(5) by (simp add: dom_def)
  from choose_backup_path_first_free [OF fin assms(6)] obtain n where
    ch: "choose_backup_path (\<lambda>p. fs p \<noteq> None) output_path = Some (Inr (backup_name output_path n))"
    and free: "fs (backup_name output_path n) = None"
    and taken: "\<forall>m<n. fs (backup_name output_path m) \<noteq> None"
    by auto
  define fs' where "fs' = (fs(backup_name output_path n := fs output_path))
      (output_path \<mapsto> output_text @ [CHR 0x0A])"
  have w: "write_output args output_text fs = Some (Inr (fs', []))"
    using assms(1-4) ch by (simp add: write_output_def fs'_def)
  have b: "fs' (backup_name output_path n) = Some old"
    using assms(2) backup_name_differs [of output_path n] by (simp add: fs'_def)
  have o: "fs' output_path = Some (output_text @ [CHR 0x0A])"
    by (simp add: fs'_def)
  have r: "\<forall>p. p \<noteq> output_path \<and> p \<noteq> backup_name output_path n \<longrightarrow> fs' p = fs p"
    by (simp add: fs'_def)
  have e: "\<forall>p. p \<noteq> output_path \<and> fs p \<noteq> None \<longrightarrow> fs' p = fs p"
    using free by (auto simp: fs'_def)
  from w free taken b o r e show ?thesis by blast
qed

theorem backup_first_free_name_witness:
  "write_output example_args ''new'' example_files
   = Some (Inr (example_files(''out/settings.json.bak.2'' \<mapsto> ''old'',
        ''out/settings.json'' \<mapsto> ''new\<newline>''), []))"
proof -
  have fin: "finite (dom example_files)"
    by (simp add: example_files_def)
  have name: "path_name ''out/settings.json'' \<noteq> []"
    by (simp add: path_name_def)
  from backup_first_free_name [of example_args "''out/settings.json''" example_files "''old''" "''new''",
      OF _ _ _ _ fin name]
  obtain n fs' where w: "write_output example_args ''new'' example_files = Some (Inr (fs', []))"
    and free: "example_files (backup_name ''out/settings.json'' n) = None"
    and taken: "\<forall>m<n. example_files (backup_name ''out/settings.json'' m) \<noteq> None"
    and b: "fs' (backup_name ''out/settings.json'' n) = Some ''old''"
    and o: "fs' ''out/settings.json'' = Some ''new\<newline>''"
    and r: "\<forall>p. p \<noteq> ''out/settings.json'' \<and> p \<noteq> backup_name ''out/settings.json'' n \<longrightarrow> fs' p = example_files p"
    by (auto simp: example_args_def example_files_def)
  have d2: "decimal 2 = ''2''" and d1: "decimal 1 = ''1''"
    by code_simp+
  have f0: "example_files (backup_name ''out/settings.json'' 0) \<noteq> None"
    by (simp add: backup_name_def example_files_def)
  have f1: "example_files (backup_name ''out/settings.json'' 1) \<noteq> None"
    by (simp add: backup_name_def d1 example_files_def del: One_nat_def)
  have f2: "example_files (backup_name ''out/settings.json'' 2) = None"
    by (simp add: backup_name_def d2 example_files_def)
  have "\<not> 2 < n"
    using taken f2 by blast
  moreover have "n \<noteq> 0"
    using free f0 by (metis)
  moreover have "n \<noteq> 1"
    using free f1 by (metis)
  ultimately have n: "n = 2" by arith
  have "fs' = example_files(''out/settings.json.bak.2'' \<mapsto> ''old'', ''out/settings.json'' \<mapsto> ''new\<newline>'')"
  proof
    fix p
    show "fs' p = (example_files(''out/settings.json.bak.2'' \<mapsto> ''old'',
        ''out/settings.json'' \<mapsto> ''new\<newline>'')) p"
      using b o r by (auto simp: n backup_name_def d2)
  qed
  with w show ?thesis by simp
qed

section \<open>Properties of the written files\<close>

lemma last_dumps_obj: "last (json_dumps_indent n (JObj kvs)) = CHR ''}''"
  by (simp add: json_dumps_indent_def)

lemma process_file_writes:
  assumes "fs md = Some content"
  shows "process_file fs md
     = Inr (fs(splitext_root md @ ''.json'' \<mapsto>
              json_dumps_indent 2 (create_permissions_json (captures (text_lines content)))),
            splitext_root md @ ''.json'')"
  using assms
  by (simp add: process_file_def parse_markdown_file_def parse_lines_captures Let_def)

lemma create_permissions_json_obj: "\<exists>kvs. create_permissions_json ps = JObj kvs"
  by (simp add: create_permissions_json_first_seen)

text \<open>
  The file the batch extractor writes does not end with a line feed: for the three example
  lines it is the indented document up to its closing brace, and differs from that document
  followed by a line feed.
\<close>

theorem extractor_file_has_no_trailing_newline:
  \<open>written_file (process_file [''gh-npm.md'' \<mapsto> example_markdown] ''gh-npm.md'')
     = Some ''{\<newline>  "permissions": {\<newline>    "allow": [\<newline>      "Bash(npm run test:*)",\<newline>      "Bash(npm run lint)"\<newline>    ],\<newline>    "deny": []\<newline>  }\<newline>}''
   \<and> written_file (process_file [''gh-npm.md'' \<mapsto> example_markdown] ''gh-npm.md'')
     \<noteq> Some (json_dumps_indent 2
          (create_permissions_json [''Bash(npm run test:*)'', ''Bash(npm run lint)''])
          @ [CHR 0x0A])\<close>
  by code_simp

lemma write_output_content:
  assumes "output args = Some p" and "finite (dom fs)" and "path_name p \<noteq> []"
  shows "\<exists>fs'. write_output args output_text fs = Some (Inr (fs', []))
    \<and> fs' p = Some (output_text @ [CHR 0x0A])"
proof (cases "fs p \<noteq> None \<and> \<not> (no_backup args \<or> force args)")
  case True
  have fin: "finite {q. fs q \<noteq> None}"
    using assms(2) by (simp add: dom_def)
  from choose_backup_path_first_free [OF fin assms(3)] obtain n where
    "choose_backup_path (\<lambda>p. fs p \<noteq> None) p = Some (Inr (backup_name p n))"
    by auto
  with True assms(1) show ?thesis
    by (simp add: write_output_def)
next
  case False
  with assms(1) show ?thesis
    by (auto simp: write_output_def)
qed

text \<open>
  C9, as the code has it. The combiner, writing to the path given with \<^verbatim>\<open>-o/--output\<close>,
  leaves in the file the serialized document followed by a line feed. The batch extractor
  leaves in its \<^verbatim>\<open>.json\<close> file the document serialized with an indentation of two and
  nothing after it: the file ends with the closing brace.
\<close>

theorem written_file_content:
  "(output args = Some p \<and> finite (dom fs) \<and> path_name p \<noteq> [] \<longrightarrow>
      (\<exists>fs'. write_output args (render_output args merged) fs = Some (Inr (fs', []))
         \<and> fs' p = Some (render_output args merged @ [CHR 0x0A])))
   \<and> (fs md = Some content \<longrightarrow>
      written_file (process_file fs md)
        = Some (json_dumps_indent 2 (create_permissions_json (captures (text_lines content))))
      \<and> last (json_dumps_indent 2 (create_permissions_json (captures (text_lines content))))
        = CHR ''}'')"
proof -
  have "last (json_dumps_indent 2 (create_permissions_json (captures (text_lines content)))) = CHR ''}''"
    using create_permissions_json_obj [of "captures (text_lines content)"] last_dumps_obj [of 2]
    by auto
  moreover have "written_file (process_file fs md)
        = Some (json_dumps_indent 2 (create_permissions_json (captures (text_lines content))))"
    if "fs md = Some content"
    using that process_file_writes [of fs md content] by (simp add: written_file_def)
  ultimately show ?thesis
    using write_output_content [of args p fs "render_output args merged"] by blast
qed

theorem written_file_content_witness:
  \<open>(\<exists>fs'. write_output example_args (render_output example_args example_bare) example_files
           = Some (Inr (fs', []))
        \<and> fs' ''out/settings.json'' = Some ''{\<newline>  "env": null\<newline>}\<newline>'')
   \<and> written_file (process_file [''gh-a.md'' \<mapsto> ''- `a`\<newline>''] ''gh-a.md'')
       = Some ''{\<newline>  "permissions": {\<newline>    "allow": [\<newline>      "a"\<newline>    ],\<newline>    "deny": []\<newline>  }\<newline>}''\<close>
proof -
  have r: \<open>render_output example_args example_bare = ''{\<newline>  "env": null\<newline>}''\<close>
    by code_simp
  have c: "captures (text_lines ''- `a`\<newline>'') = [''a'']"
    by code_simp
  have d: \<open>json_dumps_indent 2 (create_permissions_json [''a''])
      = ''{\<newline>  "permissions": {\<newline>    "allow": [\<newline>      "a"\<newline>    ],\<newline>    "deny": []\<newline>  }\<newline>}''\<close>
    by code_simp
  have o: "output example_args = Some ''out/settings.json''"
    by (simp add: example_args_def)
  have fin: "finite (dom example_files)"
    by (simp add: example_files_def)
  have name: "path_name ''out/settings.json'' \<noteq> []"
    by (simp add: path_name_def)
  have md: "[''gh-a.md'' \<mapsto> ''- `a`\<newline>''] ''gh-a.md'' = Some ''- `a`\<newline>''"
    by simp
  note t = written_file_content [where args = example_args and p = "''out/settings.json''"
      and fs = example_files and merged = example_bare]
  note u = written_file_content [where fs = "[''gh-a.md'' \<mapsto> ''- `a`\<newline>'']"
      and md = "''gh-a.md''" and content = "''- `a`\<newline>''"]
  from t o fin name have "\<exists>fs'. write_output example_args (render_output example_args example_bare)
        example_files = Some (Inr (fs', []))
      \<and> fs' ''out/settings.json'' = Some (render_output example_args example_bare @ [CHR 0x0A])"
    by blast
  then have 1: \<open>\<exists>fs'. write_output example_args (render_output example_args example_bare)
        example_files = Some (Inr (fs', []))
      \<and> fs' ''out/settings.json'' = Some ''{\<newline>  "env": null\<newline>}\<newline>''\<close>
    unfolding r by simp
  from u md have "written_file (process_file [''gh-a.md'' \<mapsto> ''- `a`\<newline>''] ''gh-a.md'')
        = Some (json_dumps_indent 2 (create_permissions_json (captures (text_lines ''- `a`\<newline>''))))"
    by blast
  then have 2: \<open>written_file (process_file [''gh-a.md'' \<mapsto> ''- `a`\<newline>''] ''gh-a.md'')
       = Some ''{\<newline>  "permissions": {\<newline>    "allow": [\<newline>      "a"\<newline>    ],\<newline>    "deny": []\<newline>  }\<newline>}''\<close>
    unfolding c d .
  from 1 2 show ?thesis by (rule conjI)
qed

section \<open>What the combiner does to the loaded documents\<close>

lemma bind_err_InrE:
  assumes "bind_err m f = Inr y"
  obtains x where "m = Inr x" and "f x = Inr y"
  using assms by (cases m) simp_all

lemma copy_obj_InrD:
  assumes "copy_obj h v = Inr (m, h1)"
  shows "\<exists>obj. deref h v = Some obj \<and> m = VRef (length h) \<and> h1 = h @ [obj]"
  using assms by (auto simp: copy_obj_def split: option.splits)

lemma collect_step_obj_InrD:
  assumes "collect_step_obj (g, al, dl) settings = Inr (g', al', dl')"
  shows "g' = g @ [ODict []] \<and> (\<exists>ms. deref (g @ [ODict []]) settings = Some (ODict ms))"
  using assms
  by (auto simp: collect_step_obj_def Let_def get_obj_def bind_err_def
      split: sum.splits option.splits pyobj.splits)

lemma collect_lists_obj_extends:
  assumes "collect_lists_obj (g, al, dl) refs = Inr (g', al', dl')"
  shows "\<exists>ext. g' = g @ ext"
  using assms
proof (induction refs arbitrary: g al dl)
  case Nil
  then show ?case by simp
next
  case (Cons r refs)
  from Cons.prems obtain st where st: "collect_step_obj (g, al, dl) r = Inr st"
    and rest: "collect_lists_obj st refs = Inr (g', al', dl')"
    by (auto split: sum.splits)
  obtain g1 al1 dl1 where st': "st = (g1, al1, dl1)" by (cases st) auto
  from st st' have "g1 = g @ [ODict []]"
    using collect_step_obj_InrD by blast
  moreover from rest st' obtain ext where "g' = g1 @ ext"
    using Cons.IH by blast
  ultimately show ?case by simp
qed

lemma collect_lists_obj_first:
  assumes "collect_lists_obj (g, al, dl) (first # rest) = Inr (g', al', dl')"
  shows "\<exists>ms. deref (g @ [ODict []]) first = Some (ODict ms)"
proof -
  from assms obtain st where st: "collect_step_obj (g, al, dl) first = Inr st"
    by (auto split: sum.splits)
  obtain g1 al1 dl1 where "st = (g1, al1, dl1)" by (cases st) auto
  with st show ?thesis
    using collect_step_obj_InrD by blast
qed

lemma merge_permission_lists_obj_InrD:
  assumes "merge_permission_lists_obj g ls = Inr (v, g')"
  shows "v = VRef (length g) \<and> (\<exists>result. g' = g @ [OList result])"
  using assms by (auto simp: merge_permission_lists_obj_def split: sum.splits)

lemma setitem_obj_InrD:
  assumes "setitem_obj g v k x = Inr g'"
  shows "\<exists>q ms. v = VRef q \<and> q < length g \<and> g ! q = ODict ms
           \<and> g' = g[q := ODict (AList.update k x ms)]"
  using assms by (cases v) (auto split: option.splits pyobj.splits if_splits)

lemma getitem_obj_InrD:
  assumes "getitem_obj g v k = Inr x"
  shows "\<exists>ms. deref g v = Some (ODict ms) \<and> map_of ms k = Some x"
  using assms by (auto simp: getitem_obj_def split: option.splits pyobj.splits)

lemma set_permissions_field_obj_InrD:
  assumes "set_permissions_field_obj g merged field v = Inr g'"
  shows "\<exists>ms0 q ms. deref g merged = Some (ODict ms0) \<and> map_of ms0 ''permissions'' = Some (VRef q)
           \<and> q < length g \<and> g ! q = ODict ms
           \<and> g' = g[q := ODict (AList.update field v ms)]"
proof -
  from assms obtain permissions where gi: "getitem_obj g merged ''permissions'' = Inr permissions"
    and si: "setitem_obj g permissions field v = Inr g'"
    unfolding set_permissions_field_obj_def by (rule bind_err_InrE)
  from getitem_obj_InrD [OF gi] setitem_obj_InrD [OF si] show ?thesis
    by blast
qed

lemma ensure_permissions_obj_InrD:
  assumes "ensure_permissions_obj g (VRef m) = Inr g'" and "m < length g" and "g ! m = ODict ms0"
  shows "(map_of ms0 ''permissions'' \<noteq> None \<and> g' = g)
       \<or> (map_of ms0 ''permissions'' = None
          \<and> g' = (g @ [ODict []])[m := ODict (AList.update ''permissions'' (VRef (length g)) ms0)])"
  using assms
  by (auto simp: ensure_permissions_obj_def bind_err_def nth_append split: if_splits)

lemma merge_loaded_heap:
  assumes "merge_loaded h refs = Inr (merged, h')"
  shows "merged = VRef (length h) \<and> length h < length h'
    \<and> (\<forall>a<length h. first_permissions h refs \<noteq> Some a \<longrightarrow> h' ! a = h ! a)
    \<and> (\<forall>p ms. first_permissions h refs = Some p \<and> p < length h \<and> h ! p = ODict ms \<longrightarrow>
         getitem_obj h' merged ''permissions'' = Inr (VRef p) \<and>
         (\<exists>l d. length h \<le> l \<and> length h \<le> d \<and> l < length h' \<and> d < length h' \<and>
            h' ! p = ODict (AList.update ''deny'' (VRef d) (AList.update ''allow'' (VRef l) ms))))"
proof -
  let ?N = "length h"
  from assms obtain first rest where refs: "refs = first # rest"
    by (cases refs) (auto simp: merge_loaded_def)
  from assms obtain x1 where c: "copy_obj h first = Inr x1"
    and r1: "(case x1 of (merged, h1) \<Rightarrow>
     bind_err (collect_lists_obj (h1, [], []) refs) (\<lambda>(h2, allow_lists, deny_lists).
     bind_err (ensure_permissions_obj h2 merged) (\<lambda>h3.
     bind_err (merge_permission_lists_obj h3 allow_lists) (\<lambda>(allow, h4).
     bind_err (set_permissions_field_obj h4 merged ''allow'' allow) (\<lambda>h5.
     bind_err (merge_permission_lists_obj h5 deny_lists) (\<lambda>(deny, h6).
     bind_err (set_permissions_field_obj h6 merged ''deny'' deny) (\<lambda>h7.
     Inr (merged, h7)))))))) = Inr (merged, h')"
    unfolding merge_loaded_def refs list.case by (rule bind_err_InrE)
  obtain m h1 where x1: "x1 = (m, h1)" by (cases x1) auto
  from copy_obj_InrD [OF c [unfolded x1]] obtain obj0 where
    d0: "deref h first = Some obj0" and m: "m = VRef ?N" and h1: "h1 = h @ [obj0]"
    by blast
  from d0 obtain a0 where first: "first = VRef a0" and a0: "a0 < ?N" and obj0: "obj0 = h ! a0"
    by (cases first) (auto split: if_splits)
  from r1 [unfolded x1 prod.case] obtain x2 where
    cl: "collect_lists_obj (h1, [], []) refs = Inr x2"
    and r2: "(case x2 of (h2, allow_lists, deny_lists) \<Rightarrow>
     bind_err (ensure_permissions_obj h2 m) (\<lambda>h3.
     bind_err (merge_permission_lists_obj h3 allow_lists) (\<lambda>(allow, h4).
     bind_err (set_permissions_field_obj h4 m ''allow'' allow) (\<lambda>h5.
     bind_err (merge_permission_lists_obj h5 deny_lists) (\<lambda>(deny, h6).
     bind_err (set_permissions_field_obj h6 m ''deny'' deny) (\<lambda>h7.
     Inr (m, h7))))))) = Inr (merged, h')"
    by (rule bind_err_InrE)
  obtain h2 al dl where x2: "x2 = (h2, al, dl)" by (cases x2) auto
  from collect_lists_obj_extends [OF cl [unfolded x2]] obtain ext where h2: "h2 = h1 @ ext"
    by blast
  from collect_lists_obj_first [OF cl [unfolded x2 refs]] obtain ms0 where
    "deref (h1 @ [ODict []]) first = Some (ODict ms0)"
    by blast
  with first a0 obj0 h1 have ms0: "h ! a0 = ODict ms0"
    by (simp add: nth_append)
  have h2N: "h2 ! ?N = ODict ms0" and N2: "?N < length h2"
    and old2: "\<forall>a<?N. h2 ! a = h ! a"
    using h2 h1 obj0 ms0 by (simp_all add: nth_append)
  have fp: "first_permissions h refs
      = (case map_of ms0 ''permissions'' of Some (VRef p) \<Rightarrow> Some p | _ \<Rightarrow> None)"
    using first a0 ms0 by (simp add: first_permissions_def refs)
  from r2 [unfolded x2 prod.case] obtain h3 where
    en: "ensure_permissions_obj h2 m = Inr h3"
    and r3: "bind_err (merge_permission_lists_obj h3 al) (\<lambda>(allow, h4).
     bind_err (set_permissions_field_obj h4 m ''allow'' allow) (\<lambda>h5.
     bind_err (merge_permission_lists_obj h5 dl) (\<lambda>(deny, h6).
     bind_err (set_permissions_field_obj h6 m ''deny'' deny) (\<lambda>h7.
     Inr (m, h7))))) = Inr (merged, h')"
    by (rule bind_err_InrE)
  from ensure_permissions_obj_InrD [OF en [unfolded m] N2 h2N]
  obtain ms1 where h3N: "h3 ! ?N = ODict ms1" and N3: "?N < length h3"
    and old3: "\<forall>a<?N. h3 ! a = h ! a"
    and entry: "map_of ms1 ''permissions'' = map_of ms0 ''permissions''
        \<or> (\<exists>e. map_of ms1 ''permissions'' = Some (VRef e) \<and> ?N < e
             \<and> map_of ms0 ''permissions'' = None)"
  proof (elim disjE conjE)
    assume "map_of ms0 ''permissions'' \<noteq> None" and "h3 = h2"
    with h2N N2 old2 show ?thesis by (intro that [of ms0]) simp_all
  next
    assume none: "map_of ms0 ''permissions'' = None"
      and h3: "h3 = (h2 @ [ODict []])
        [?N := ODict (AList.update ''permissions'' (VRef (length h2)) ms0)]"
    show ?thesis
    proof (rule that [of "AList.update ''permissions'' (VRef (length h2)) ms0"])
      show "h3 ! ?N = ODict (AList.update ''permissions'' (VRef (length h2)) ms0)"
        using N2 by (simp add: h3)
      show "?N < length h3" using N2 by (simp add: h3)
      show "\<forall>a<?N. h3 ! a = h ! a"
        using old2 N2 by (simp add: h3 nth_append)
      show "map_of (AList.update ''permissions'' (VRef (length h2)) ms0) ''permissions''
            = map_of ms0 ''permissions''
          \<or> (\<exists>e. map_of (AList.update ''permissions'' (VRef (length h2)) ms0) ''permissions''
                = Some (VRef e) \<and> ?N < e \<and> map_of ms0 ''permissions'' = None)"
        using N2 none by (simp add: AList.update_conv')
    qed
  qed
  from r3 obtain x4 where ma: "merge_permission_lists_obj h3 al = Inr x4"
    and r4: "(case x4 of (allow, h4) \<Rightarrow>
     bind_err (set_permissions_field_obj h4 m ''allow'' allow) (\<lambda>h5.
     bind_err (merge_permission_lists_obj h5 dl) (\<lambda>(deny, h6).
     bind_err (set_permissions_field_obj h6 m ''deny'' deny) (\<lambda>h7.
     Inr (m, h7))))) = Inr (merged, h')"
    by (rule bind_err_InrE)
  obtain allow h4 where x4: "x4 = (allow, h4)" by (cases x4) auto
  from merge_permission_lists_obj_InrD [OF ma [unfolded x4]] obtain A where
    allow: "allow = VRef (length h3)" and h4: "h4 = h3 @ [OList A]"
    by blast
  from r4 [unfolded x4 prod.case] obtain h5 where
    sa: "set_permissions_field_obj h4 m ''allow'' allow = Inr h5"
    and r5: "bind_err (merge_permission_lists_obj h5 dl) (\<lambda>(deny, h6).
     bind_err (set_permissions_field_obj h6 m ''deny'' deny) (\<lambda>h7.
     Inr (m, h7))) = Inr (merged, h')"
    by (rule bind_err_InrE)
  from set_permissions_field_obj_InrD [OF sa] obtain msa q msq where
    da: "deref h4 m = Some (ODict msa)" and qa: "map_of msa ''permissions'' = Some (VRef q)"
    and q4: "q < length h4" and h4q: "h4 ! q = ODict msq"
    and h5: "h5 = h4[q := ODict (AList.update ''allow'' allow msq)]"
    by blast
  from da m N3 h3N h4 have msa: "msa = ms1"
    by (simp add: nth_append)
  have h5N: "\<exists>ms2. h5 ! ?N = ODict ms2 \<and> map_of ms2 ''permissions'' = Some (VRef q)"
  proof (cases "q = ?N")
    case True
    with h4q h4 N3 h3N have "msq = ms1" by (simp add: nth_append)
    with True q4 qa msa show ?thesis
      by (simp add: h5 AList.update_conv')
  next
    case False
    with h4 N3 h3N qa msa show ?thesis
      by (simp add: h5 nth_append)
  qed
  from r5 obtain x6 where md: "merge_permission_lists_obj h5 dl = Inr x6"
    and r6: "(case x6 of (deny, h6) \<Rightarrow>
     bind_err (set_permissions_field_obj h6 m ''deny'' deny) (\<lambda>h7.
     Inr (m, h7))) = Inr (merged, h')"
    by (rule bind_err_InrE)
  obtain deny h6 where x6: "x6 = (deny, h6)" by (cases x6) auto
  from merge_permission_lists_obj_InrD [OF md [unfolded x6]] obtain D where
    deny: "deny = VRef (length h5)" and h6: "h6 = h5 @ [OList D]"
    by blast
  from r6 [unfolded x6 prod.case] obtain h7 where
    sd: "set_permissions_field_obj h6 m ''deny'' deny = Inr h7"
    and r7: "Inr (m, h7) = Inr (merged, h')"
    by (auto elim: bind_err_InrE)
  from set_permissions_field_obj_InrD [OF sd] obtain msd q' msq' where
    dd: "deref h6 m = Some (ODict msd)" and qd: "map_of msd ''permissions'' = Some (VRef q')"
    and q6: "q' < length h6" and h6q: "h6 ! q' = ODict msq'"
    and h7: "h7 = h6[q' := ODict (AList.update ''deny'' deny msq')]"
    by blast
  have len5: "length h5 = Suc (length h3)"
    by (simp add: h5 h4)
  from h5N obtain ms2 where ms2: "h5 ! ?N = ODict ms2"
    and q2: "map_of ms2 ''permissions'' = Some (VRef q)"
    by blast
  from dd m N3 len5 ms2 h6 have "msd = ms2"
    by (simp add: nth_append)
  with qd q2 have q': "q' = q" by simp
  have merged: "merged = VRef ?N" and h': "h' = h7"
    using r7 m by simp_all
  have len: "?N < length h'"
    using N3 by (simp add: h' h7 h6 h5 h4)
  have qfp: "first_permissions h refs = Some q \<or> ?N < q"
    using entry
  proof
    assume "map_of ms1 ''permissions'' = map_of ms0 ''permissions''"
    with qa msa have "map_of ms0 ''permissions'' = Some (VRef q)" by simp
    then show ?thesis by (simp add: fp)
  next
    assume "\<exists>e. map_of ms1 ''permissions'' = Some (VRef e) \<and> ?N < e
             \<and> map_of ms0 ''permissions'' = None"
    with qa msa show ?thesis by auto
  qed
  have frame: "\<forall>a<?N. first_permissions h refs \<noteq> Some a \<longrightarrow> h' ! a = h ! a"
  proof (intro allI impI)
    fix a
    assume a: "a < ?N" and ne: "first_permissions h refs \<noteq> Some a"
    with qfp have "a \<noteq> q" by auto
    with a N3 old3 show "h' ! a = h ! a"
      by (simp add: h' h7 q' h6 h5 h4 nth_append)
  qed
  have shared: "getitem_obj h' merged ''permissions'' = Inr (VRef p) \<and>
      (\<exists>l d. ?N \<le> l \<and> ?N \<le> d \<and> l < length h' \<and> d < length h' \<and>
      h' ! p = ODict (AList.update ''deny'' (VRef d) (AList.update ''allow'' (VRef l) ms)))"
    if p: "first_permissions h refs = Some p" "p < ?N" "h ! p = ODict ms" for p ms
  proof -
    from p(1) have "map_of ms0 ''permissions'' = Some (VRef p)"
      by (auto simp: fp split: option.splits pyval.splits)
    with entry have "map_of ms1 ''permissions'' = Some (VRef p)" by auto
    with qa msa have qp: "q = p" by simp
    from p(2,3) old3 N3 have "msq = ms"
      using h4q by (simp add: qp h4 nth_append)
    moreover have "msq' = AList.update ''allow'' allow msq"
      using h6q p(2) N3 by (simp add: q' qp h6 h5 h4 nth_append)
    ultimately have "h' ! p = ODict (AList.update ''deny'' (VRef (length h5))
        (AList.update ''allow'' (VRef (length h3)) ms))"
      using p(2) N3 by (simp add: h' h7 q' qp h6 h5 h4 deny allow)
    moreover have "?N \<le> length h3" "?N \<le> length h5" "length h3 < length h'" "length h5 < length h'"
      using N3 by (simp_all add: h' h7 h6 h5 h4)
    moreover have "getitem_obj h' merged ''permissions'' = Inr (VRef p)"
    proof -
      have "h' ! ?N = ODict ms2"
        using p(2) N3 len5 ms2 by (simp add: h' h7 q' qp h6 nth_append)
      with len q2 show ?thesis
        by (simp add: getitem_obj_def merged qp)
    qed
    ultimately show ?thesis by blast
  qed
  from merged len frame shared show ?thesis by blast
qed

lemma alloc_extends:
  "alloc_json j h = (v, h') \<Longrightarrow> \<exists>ext. h' = h @ ext"
  "alloc_items xs h = (vs, h') \<Longrightarrow> \<exists>ext. h' = h @ ext"
  "alloc_members kvs h = (ms, h') \<Longrightarrow> \<exists>ext. h' = h @ ext"
proof (induction j h and xs h and kvs h arbitrary: v h' and vs h' and ms h'
    rule: alloc_json_alloc_items_alloc_members.induct)
  case (8 x xs h)
  from "8.prems" obtain v1 h1 vs2 where
    1: "alloc_json x h = (v1, h1)" and 2: "alloc_items xs h1 = (vs2, h')"
    by (auto split: prod.splits)
  from "8.IH"(1) [OF 1] "8.IH"(2) [OF 1 [symmetric] 2] show ?case
    by auto
next
  case (10 kv kvs h)
  from "10.prems" obtain v1 h1 ms2 where
    1: "alloc_json (snd kv) h = (v1, h1)" and 2: "alloc_members kvs h1 = (ms2, h')"
    by (auto split: prod.splits)
  from "10.IH"(1) [OF 1] "10.IH"(2) [OF 1 [symmetric] 2] show ?case
    by auto
qed (auto split: prod.splits)

lemma alloc_refs_bound:
  "alloc_json j h = (v, h') \<Longrightarrow> \<forall>a. v = VRef a \<longrightarrow> a < length h'"
  "alloc_items xs h = (vs, h') \<Longrightarrow> \<forall>a. VRef a \<in> set vs \<longrightarrow> a < length h'"
  "alloc_members kvs h = (ms, h') \<Longrightarrow> \<forall>k a. (k, VRef a) \<in> set ms \<longrightarrow> a < length h'"
proof (induction j h and xs h and kvs h arbitrary: v h' and vs h' and ms h'
    rule: alloc_json_alloc_items_alloc_members.induct)
  case (8 x xs h)
  from "8.prems" obtain v1 h1 vs2 where
    1: "alloc_json x h = (v1, h1)" and 2: "alloc_items xs h1 = (vs2, h')" and vs: "vs = v1 # vs2"
    by (auto split: prod.splits)
  from alloc_extends(2) [OF 2] have "length h1 \<le> length h'" by auto
  with "8.IH"(1) [OF 1] "8.IH"(2) [OF 1 [symmetric] 2] vs show ?case
    by fastforce
next
  case (10 kv kvs h)
  from "10.prems" obtain v1 h1 ms2 where
    1: "alloc_json (snd kv) h = (v1, h1)" and 2: "alloc_members kvs h1 = (ms2, h')"
    and ms: "ms = (fst kv, v1) # ms2"
    by (auto split: prod.splits)
  from alloc_extends(3) [OF 2] have "length h1 \<le> length h'" by auto
  with "10.IH"(1) [OF 1] "10.IH"(2) [OF 1 [symmetric] 2] ms show ?case
    by fastforce
qed (auto split: prod.splits)

lemma alloc_read:
  "alloc_json j h = (v, h') \<Longrightarrow> length h' \<le> length g \<Longrightarrow>
   (\<forall>a. length h \<le> a \<and> a < length h' \<longrightarrow> g ! a = h' ! a) \<Longrightarrow>
   length h' - length h < n \<Longrightarrow> read_val n g v = Some j"
  "alloc_items xs h = (vs, h') \<Longrightarrow> length h' \<le> length g \<Longrightarrow>
   (\<forall>a. length h \<le> a \<and> a < length h' \<longrightarrow> g ! a = h' ! a) \<Longrightarrow>
   length h' - length h < n \<Longrightarrow> those (map (read_val n g) vs) = Some xs"
  "alloc_members kvs h = (ms, h') \<Longrightarrow> length h' \<le> length g \<Longrightarrow>
   (\<forall>a. length h \<le> a \<and> a < length h' \<longrightarrow> g ! a = h' ! a) \<Longrightarrow>
   length h' - length h < n \<Longrightarrow>
   those (map (\<lambda>kv. map_option (Pair (fst kv)) (read_val n g (snd kv))) ms) = Some kvs"
proof (induction j h and xs h and kvs h arbitrary: v h' n and vs h' n and ms h' n
    rule: alloc_json_alloc_items_alloc_members.induct)
  case (5 xs h)
  from "5.prems"(1) obtain vs hm where
    1: "alloc_items xs h = (vs, hm)" and v: "v = VRef (length hm)" and h': "h' = hm @ [OList vs]"
    by (auto split: prod.splits)
  from alloc_extends(2) [OF 1] have le: "length h \<le> length hm" by auto
  from "5.prems"(4) h' le obtain n' where n: "n = Suc n'" and n': "length hm - length h < n'"
    by (cases n) auto
  have "those (map (read_val n' g) vs) = Some xs"
  proof (rule "5.IH" [OF 1])
    show "length hm \<le> length g" using "5.prems"(2) h' by simp
    show "\<forall>a. length h \<le> a \<and> a < length hm \<longrightarrow> g ! a = hm ! a"
      using "5.prems"(3) h' by (simp add: nth_append)
    show "length hm - length h < n'" by (rule n')
  qed
  moreover have "g ! length hm = OList vs" and "length hm < length g"
    using "5.prems"(2,3) h' le by simp_all
  ultimately show ?case by (simp add: v n)
next
  case (6 kvs h)
  from "6.prems"(1) obtain ms hm where
    1: "alloc_members kvs h = (ms, hm)" and v: "v = VRef (length hm)" and h': "h' = hm @ [ODict ms]"
    by (auto split: prod.splits)
  from alloc_extends(3) [OF 1] have le: "length h \<le> length hm" by auto
  from "6.prems"(4) h' le obtain n' where n: "n = Suc n'" and n': "length hm - length h < n'"
    by (cases n) auto
  have "those (map (\<lambda>kv. map_option (Pair (fst kv)) (read_val n' g (snd kv))) ms) = Some kvs"
  proof (rule "6.IH" [OF 1])
    show "length hm \<le> length g" using "6.prems"(2) h' by simp
    show "\<forall>a. length h \<le> a \<and> a < length hm \<longrightarrow> g ! a = hm ! a"
      using "6.prems"(3) h' by (simp add: nth_append)
    show "length hm - length h < n'" by (rule n')
  qed
  moreover have "g ! length hm = ODict ms" and "length hm < length g"
    using "6.prems"(2,3) h' le by simp_all
  ultimately show ?case by (simp add: v n)
next
  case (8 x xs h)
  from "8.prems"(1) obtain v1 h1 vs2 where
    1: "alloc_json x h = (v1, h1)" and 2: "alloc_items xs h1 = (vs2, h')" and vs: "vs = v1 # vs2"
    by (auto split: prod.splits)
  from alloc_extends(1) [OF 1] obtain e1 where e1: "h1 = h @ e1" by blast
  from alloc_extends(2) [OF 2] obtain e2 where e2: "h' = h1 @ e2" by blast
  have "read_val n g v1 = Some x"
  proof (rule "8.IH"(1) [OF 1])
    show "length h1 \<le> length g" using "8.prems"(2) e2 by simp
    show "\<forall>a. length h \<le> a \<and> a < length h1 \<longrightarrow> g ! a = h1 ! a"
      using "8.prems"(3) e2 by (simp add: nth_append)
    show "length h1 - length h < n" using "8.prems"(4) e1 e2 by simp
  qed
  moreover have "those (map (read_val n g) vs2) = Some xs"
  proof (rule "8.IH"(2) [OF 1 [symmetric] 2])
    show "length h' \<le> length g" by (rule "8.prems"(2))
    show "\<forall>a. length h1 \<le> a \<and> a < length h' \<longrightarrow> g ! a = h' ! a"
      using "8.prems"(3) e1 by simp
    show "length h' - length h1 < n" using "8.prems"(4) e1 e2 by simp
  qed
  ultimately show ?case by (simp add: vs)
next
  case (10 kv kvs h)
  from "10.prems"(1) obtain v1 h1 ms2 where
    1: "alloc_json (snd kv) h = (v1, h1)" and 2: "alloc_members kvs h1 = (ms2, h')"
    and ms: "ms = (fst kv, v1) # ms2"
    by (auto split: prod.splits)
  from alloc_extends(1) [OF 1] obtain e1 where e1: "h1 = h @ e1" by blast
  from alloc_extends(3) [OF 2] obtain e2 where e2: "h' = h1 @ e2" by blast
  have "read_val n g v1 = Some (snd kv)"
  proof (rule "10.IH"(1) [OF 1])
    show "length h1 \<le> length g" using "10.prems"(2) e2 by simp
    show "\<forall>a. length h \<le> a \<and> a < length h1 \<longrightarrow> g ! a = h1 ! a"
      using "10.prems"(3) e2 by (simp add: nth_append)
    show "length h1 - length h < n" using "10.prems"(4) e1 e2 by simp
  qed
  moreover have "those (map (\<lambda>kv. map_option (Pair (fst kv)) (read_val n g (snd kv))) ms2)
      = Some kvs"
  proof (rule "10.IH"(2) [OF 1 [symmetric] 2])
    show "length h' \<le> length g" by (rule "10.prems"(2))
    show "\<forall>a. length h1 \<le> a \<and> a < length h' \<longrightarrow> g ! a = h' ! a"
      using "10.prems"(3) e1 by simp
    show "length h' - length h1 < n" using "10.prems"(4) e1 e2 by simp
  qed
  ultimately show ?case by (simp add: ms)
qed auto

lemma load_all_obj_read:
  assumes "load_all_obj parsed files h0 = Inr (refs, h)"
  shows "(\<exists>ext. h = h0 @ ext)
    \<and> (\<forall>g. length h \<le> length g \<and> (\<forall>a. length h0 \<le> a \<and> a < length h \<longrightarrow> g ! a = h ! a)
          \<longrightarrow> map (read_heap g) refs = map parsed files)"
  using assms
proof (induction files arbitrary: h0 refs)
  case Nil
  then show ?case by simp
next
  case (Cons f fs)
  from Cons.prems obtain j v h1 vs where j: "parsed f = Some j"
    and 1: "alloc_json j h0 = (v, h1)" and 2: "load_all_obj parsed fs h1 = Inr (vs, h)"
    and refs: "refs = v # vs"
    by (auto simp: load_json_file_def split: option.splits sum.splits prod.splits)
  from alloc_extends(1) [OF 1] obtain e1 where e1: "h1 = h0 @ e1" by blast
  from Cons.IH [OF 2] obtain e2 where e2: "h = h1 @ e2"
    and tail: "\<And>g. length h \<le> length g \<Longrightarrow>
        (\<forall>a. length h1 \<le> a \<and> a < length h \<longrightarrow> g ! a = h ! a) \<Longrightarrow>
        map (read_heap g) vs = map parsed fs"
    by blast
  have "map (read_heap g) refs = map parsed (f # fs)"
    if g: "length h \<le> length g" "\<forall>a. length h0 \<le> a \<and> a < length h \<longrightarrow> g ! a = h ! a" for g
  proof -
    have "read_val (Suc (length g)) g v = Some j"
    proof (rule alloc_read(1) [OF 1])
      show "length h1 \<le> length g" using g(1) e2 by simp
      show "\<forall>a. length h0 \<le> a \<and> a < length h1 \<longrightarrow> g ! a = h1 ! a"
        using g(2) e2 by (simp add: nth_append)
      show "length h1 - length h0 < Suc (length g)" using g(1) e1 e2 by simp
    qed
    moreover have "map (read_heap g) vs = map parsed fs"
      using g e1 by (intro tail) simp_all
    ultimately show ?thesis by (simp add: refs j read_heap_def)
  qed
  with e1 e2 show ?case by simp
qed

lemma alloc_json_slot_bound:
  assumes "alloc_json j h0 = (v, h1)" and "deref (h1 @ ext) v = Some (ODict ms)"
    and "map_of ms k = Some (VRef p)"
  shows "p < length h1"
proof (cases j)
  case (JObj kvs)
  with assms(1) obtain ms' hm where 1: "alloc_members kvs h0 = (ms', hm)"
    and v: "v = VRef (length hm)" and h1: "h1 = hm @ [ODict ms']"
    by (auto split: prod.splits)
  from assms(2) v h1 have "ms' = ms" by (simp add: nth_append)
  moreover from assms(3) have "(k, VRef p) \<in> set ms" by (rule map_of_SomeD)
  ultimately have "p < length hm"
    using alloc_refs_bound(3) [OF 1] by blast
  with h1 show ?thesis by simp
next
  case (JArr xs)
  with assms(1,2) show ?thesis
    by (auto simp: nth_append split: prod.splits)
qed (use assms in auto)

lemma merge_settings_files_obj_documents:
  assumes "merge_settings_files_obj parsed files = Inr run"
  shows "documents_before (Inr run) = map parsed files
    \<and> tl (documents_after (Inr run)) = tl (documents_before (Inr run))
    \<and> merge_loaded (heap_before run) (loaded_refs run) = Inr (merged_ref run, heap_after run)"
proof -
  from assms have ne: "files \<noteq> []"
    by (auto simp: merge_settings_files_obj_def split: if_splits)
  from assms ne obtain x where ld: "load_all_obj parsed files [] = Inr x"
    and r: "(case x of (refs, h) \<Rightarrow> bind_err (merge_loaded h refs) (\<lambda>(merged, h').
        Inr \<lparr>loaded_refs = refs, heap_before = h, merged_ref = merged, heap_after = h'\<rparr>))
        = Inr run"
    by (auto simp: merge_settings_files_obj_def elim: bind_err_InrE)
  obtain refs h where x: "x = (refs, h)" by (cases x) auto
  from r [unfolded x prod.case] obtain merged h' where
    ml': "merge_loaded h refs = Inr (merged, h')"
    and run: "run = \<lparr>loaded_refs = refs, heap_before = h, merged_ref = merged,
      heap_after = h'\<rparr>"
    by (cases "merge_loaded h refs") auto
  define y where "y = (merged, h')"
  from ml' have ml: "merge_loaded h refs = Inr y" by (simp add: y_def)
  have y: "y = (merged, h')" by (rule y_def)
  from load_all_obj_read [OF ld [unfolded x]]
  have before: "map (read_heap h) refs = map parsed files"
    by simp
  from ne obtain f fs where files: "files = f # fs" by (cases files) auto
  from ld [unfolded x files] obtain j v h1 vs where j: "parsed f = Some j"
    and 1: "alloc_json j [] = (v, h1)" and 2: "load_all_obj parsed fs h1 = Inr (vs, h)"
    and refs: "refs = v # vs"
    by (auto simp: load_json_file_def split: option.splits sum.splits prod.splits)
  from load_all_obj_read [OF 2] obtain e2 where e2: "h = h1 @ e2"
    and tail: "\<And>g. length h \<le> length g \<Longrightarrow>
        (\<forall>a. length h1 \<le> a \<and> a < length h \<longrightarrow> g ! a = h ! a) \<Longrightarrow>
        map (read_heap g) vs = map parsed fs"
    by blast
  from merge_loaded_heap [OF ml [unfolded y]]
  have len: "length h < length h'"
    and frame: "\<forall>a<length h. first_permissions h refs \<noteq> Some a \<longrightarrow> h' ! a = h ! a"
    by blast+
  have "h' ! a = h ! a" if a: "length h1 \<le> a" "a < length h" for a
  proof -
    have "first_permissions h refs \<noteq> Some a"
    proof
      assume fp: "first_permissions h refs = Some a"
      then obtain ms where "deref h v = Some (ODict ms)" "map_of ms ''permissions'' = Some (VRef a)"
        by (auto simp: first_permissions_def refs split: option.splits pyobj.splits pyval.splits)
      then have "a < length h1"
        using alloc_json_slot_bound [OF 1, of e2 ms "''permissions''" a] e2 by simp
      with a(1) show False by simp
    qed
    with frame a(2) show ?thesis by blast
  qed
  with len have "map (read_heap h') vs = map parsed fs"
    by (intro tail) simp_all
  moreover from tail [of h] have "map (read_heap h) vs = map parsed fs"
    by simp
  ultimately have "tl (map (read_heap h') refs) = tl (map (read_heap h) refs)"
    by (simp add: refs)
  with before ml y show ?thesis
    by (simp add: documents_before_def documents_after_def run)
qed

lemma combiner_on_objects_example:
  "merged_document
     (merge_settings_files_obj example_parsed [''base.json'', ''bare.json'', ''extra.json''])
   = map_sum id Some
       (merge_settings_files example_parsed [''base.json'', ''bare.json'', ''extra.json''])"
  by code_simp

text \<open>
  How far a call reaches into the documents it has loaded. A call that returns changes one
  object among them at most: the \<^verbatim>\<open>"permissions"\<close> mapping of the first document. The
  copy of the first document is shallow, so the result holds a reference to that same
  mapping, and the two assignments put references to two new objects into its \<^verbatim>\<open>"allow"\<close>
  and \<^verbatim>\<open>"deny"\<close> slots. Every other object that existed before the merge holds what it
  held, and every document after the first reads as it was parsed.
\<close>

lemma loaded_documents_after_merge:
  assumes "merge_settings_files_obj parsed files = Inr run"
  shows "documents_before (Inr run) = map parsed files
    \<and> tl (documents_after (Inr run)) = tl (documents_before (Inr run))
    \<and> merged_ref run = VRef (length (heap_before run))
    \<and> length (heap_before run) < length (heap_after run)
    \<and> (\<forall>a < length (heap_before run).
          first_permissions (heap_before run) (loaded_refs run) \<noteq> Some a
          \<longrightarrow> heap_after run ! a = heap_before run ! a)
    \<and> (\<forall>p ms. first_permissions (heap_before run) (loaded_refs run) = Some p
          \<and> p < length (heap_before run) \<and> heap_before run ! p = ODict ms
          \<longrightarrow> getitem_obj (heap_after run) (merged_ref run) ''permissions'' = Inr (VRef p)
            \<and> (\<exists>l d. length (heap_before run) \<le> l \<and> length (heap_before run) \<le> d
                \<and> l < length (heap_after run) \<and> d < length (heap_after run)
                \<and> heap_after run ! p
                    = ODict (AList.update ''deny'' (VRef d)
                        (AList.update ''allow'' (VRef l) ms))))"
proof -
  from merge_settings_files_obj_documents [OF assms]
  have d: "documents_before (Inr run) = map parsed files"
    and t: "tl (documents_after (Inr run)) = tl (documents_before (Inr run))"
    and m: "merge_loaded (heap_before run) (loaded_refs run)
        = Inr (merged_ref run, heap_after run)"
    by blast+
  from d t merge_loaded_heap [OF m] show ?thesis
    by blast
qed


text \<open>
  On these files the combiner on objects and the combiner on values end alike: with the same
  exception, or with a merged document that reads as the value.
\<close>

lemma combiner_on_objects_examples:
  "map (\<lambda>files. merged_document (merge_settings_files_obj example_odd files)) example_runs
   = map (\<lambda>files. map_sum id Some (merge_settings_files example_odd files)) example_runs"
  by code_simp

end
